theory Spec2Isabelle
  imports Main "HOL-Library.AList" "HOL-Library.Monad_Syntax"
begin

section \<open>Data model\<close>

text \<open>
  The embedding follows \<^verbatim>\<open>src/yobecs\<close>. Private members lose their trailing underscore
  (\<^verbatim>\<open>data_\<close> becomes \<open>c_data\<close> or \<open>am_data\<close>, \<^verbatim>\<open>owners_\<close> becomes \<open>owners\<close>, and so on),
  and a method \<^verbatim>\<open>C::f\<close> is the constant \<open>C_f\<close>.

  \<^item> An \<^verbatim>\<open>AccessMatrix<N, M>::Index\<close> is an iterator into one of the permanently allocated
    blocks. The blocks are laid out one after the other: index \<open>k\<close> is the cell \<open>k mod N\<close> of
    block \<open>k div N\<close>, and \<open>am_data\<close> is the concatenation of the blocks.
  \<^item> \<^verbatim>\<open>std::size_t\<close> values are natural numbers; the only place where the width of
    \<^verbatim>\<open>std::size_t\<close> matters is the sentinel \<open>maxAccessor\<close>, taken at 64 bits.
  \<^item> A component type \<^verbatim>\<open>T\<close> of the pack \<^verbatim>\<open>Ts\<close> is its index \<^verbatim>\<open>typeId_<T>\<close>, a number below
    \<open>M = sizeof...(Ts)\<close>; the tuple \<^verbatim>\<open>components_\<close> is a list of \<open>M\<close> stores over one value
    type \<open>'v\<close>.
  \<^item> A \<^verbatim>\<open>std::bitset<M>\<close> is the set of the positions of its set bits.
  \<^item> A \<^verbatim>\<open>std::set\<close> is an ordered list without duplicates, a \<^verbatim>\<open>std::map\<close> an association
    list, a \<^verbatim>\<open>std::deque\<close> a list whose head is the front.
  \<^item> Undefined behaviour of the C++ (a subscript out of range, \<^verbatim>\<open>back()\<close> of an empty
    container, a dereferenced iterator that points into no block) is the result \<open>None\<close>.
  \<^item> The template parameters \<open>N\<close> and \<open>M\<close> are arguments of the functions that use them.
  \<^item> The processing function \<^verbatim>\<open>f_\<close> of a system and \<^verbatim>\<open>process()\<close> are left out.
\<close>

type_synonym Index = nat
type_synonym Entity = Index
type_synonym SystemHandle = nat
type_synonym Signature = "nat set"

subsection \<open>accessMatrix.hpp\<close>

record AccessMatrix =
  am_data :: "nat list list"
  available :: "Index list"

definition maxAccessor :: nat where
  "maxAccessor = 2 ^ 64 - 1"

definition defaultAccessors :: "nat \<Rightarrow> nat list" where
  "defaultAccessors M = replicate M maxAccessor"

definition AccessMatrix_get :: "Index \<Rightarrow> nat \<Rightarrow> AccessMatrix \<Rightarrow> nat option" where
  "AccessMatrix_get i p am =
     (if i < length (am_data am) \<and> p < length (am_data am ! i)
      then Some (am_data am ! i ! p) else None)"

text \<open>An assignment through the reference that \<^verbatim>\<open>get\<close> returns: \<^verbatim>\<open>get(i, p) = v\<close>.\<close>

definition AccessMatrix_assign :: "Index \<Rightarrow> nat \<Rightarrow> nat \<Rightarrow> AccessMatrix \<Rightarrow> AccessMatrix option" where
  "AccessMatrix_assign i p v am =
     (if i < length (am_data am) \<and> p < length (am_data am ! i)
      then Some (am\<lparr>am_data := (am_data am)[i := (am_data am ! i)[p := v]]\<rparr>) else None)"

definition AccessMatrix_has :: "Index \<Rightarrow> nat \<Rightarrow> AccessMatrix \<Rightarrow> bool option" where
  "AccessMatrix_has i p am = map_option (\<lambda>a. a \<noteq> maxAccessor) (AccessMatrix_get i p am)"

definition AccessMatrix_reset :: "Index \<Rightarrow> nat \<Rightarrow> AccessMatrix \<Rightarrow> AccessMatrix option" where
  "AccessMatrix_reset i p am = AccessMatrix_assign i p maxAccessor am"

text \<open>\<^verbatim>\<open>expand_\<close>: a new block of \<open>N\<close> default cells; its iterators are pushed to the front of
  the deque one by one, from \<^verbatim>\<open>begin()\<close> to \<^verbatim>\<open>end()\<close>.\<close>

definition expand :: "nat \<Rightarrow> nat \<Rightarrow> AccessMatrix \<Rightarrow> AccessMatrix" where
  "expand N M am =
     am\<lparr>am_data := am_data am @ replicate N (defaultAccessors M),
        available := fold (\<lambda>it av. it # av)
                       [length (am_data am) ..< length (am_data am) + N] (available am)\<rparr>"

definition AccessMatrix_make :: "nat \<Rightarrow> nat \<Rightarrow> AccessMatrix \<Rightarrow> (Index \<times> AccessMatrix) option" where
  "AccessMatrix_make N M am =
     (let am1 = (if available am = [] then expand N M am else am)
      in if available am1 = [] then None
         else Some (last (available am1), am1\<lparr>available := butlast (available am1)\<rparr>))"

definition AccessMatrix_free :: "nat \<Rightarrow> Index \<Rightarrow> AccessMatrix \<Rightarrow> AccessMatrix option" where
  "AccessMatrix_free M i am =
     (if i < length (am_data am)
      then Some (am\<lparr>am_data := (am_data am)[i := defaultAccessors M],
                   available := available am @ [i]\<rparr>)
      else None)"

subsection \<open>component.hpp\<close>

record 'v Component =
  c_data :: "'v list"
  owners :: "Entity list"

definition Component_insert :: "Entity \<Rightarrow> 'v \<Rightarrow> 'v Component \<Rightarrow> nat \<times> 'v Component" where
  "Component_insert e val c =
     (length (c_data c), c\<lparr>c_data := c_data c @ [val], owners := owners c @ [e]\<rparr>)"

definition Component_remove :: "nat \<Rightarrow> 'v Component \<Rightarrow> (Entity \<times> 'v Component) option" where
  "Component_remove a c =
     (if a < length (owners c) \<and> a < length (c_data c) then
        let ow1 = (owners c)[a := last (owners c)];
            e = ow1 ! a;
            ow2 = take (length ow1 - 1) ow1;
            d1 = (c_data c)[a := last (c_data c)];
            d2 = take (length d1 - 1) d1
        in Some (e, c\<lparr>c_data := d2, owners := ow2\<rparr>)
      else None)"

definition Component_access :: "nat \<Rightarrow> 'v Component \<Rightarrow> 'v option" where
  "Component_access a c = (if a < length (c_data c) then Some (c_data c ! a) else None)"

subsection \<open>system.hpp\<close>

record System =
  signature :: Signature
  entities :: "Entity list"

text \<open>\<^verbatim>\<open>std::set::insert\<close> and \<^verbatim>\<open>std::set::erase\<close> by key.\<close>

definition set_insert :: "'a::linorder \<Rightarrow> 'a list \<Rightarrow> 'a list" where
  "set_insert e xs = (if e \<in> set xs then xs else insort e xs)"

definition set_erase :: "'a \<Rightarrow> 'a list \<Rightarrow> 'a list" where
  "set_erase e xs = removeAll e xs"

definition System_insert :: "Entity \<Rightarrow> System \<Rightarrow> System" where
  "System_insert e sys = sys\<lparr>entities := set_insert e (entities sys)\<rparr>"

definition System_remove :: "Entity \<Rightarrow> System \<Rightarrow> System" where
  "System_remove e sys = sys\<lparr>entities := set_erase e (entities sys)\<rparr>"

subsection \<open>model.hpp\<close>

record 'v Model =
  accessMatrix :: AccessMatrix
  spawnedEntities :: "Entity list"
  components :: "'v Component list"
  systems :: "(SystemHandle \<times> System) list"

definition getAccess :: "nat \<Rightarrow> Entity \<Rightarrow> 'v Model \<Rightarrow> nat option" where
  "getAccess T e m = AccessMatrix_get e T (accessMatrix m)"

definition hasAccess :: "nat \<Rightarrow> Entity \<Rightarrow> 'v Model \<Rightarrow> bool option" where
  "hasAccess T e m = AccessMatrix_has e T (accessMatrix m)"

definition getComponent :: "nat \<Rightarrow> 'v Model \<Rightarrow> 'v Component option" where
  "getComponent T m = (if T < length (components m) then Some (components m ! T) else None)"

text \<open>\<^verbatim>\<open>computeSignature_<Us ...>()\<close>: the fold of \<^verbatim>\<open>|\<close> over one bit per type.\<close>

definition computeSignature_types :: "nat list \<Rightarrow> Signature" where
  "computeSignature_types Us = fold (\<lambda>U s. s \<union> {U}) Us {}"

text \<open>\<^verbatim>\<open>computeSignature_(Entity e)\<close>: the fold of \<^verbatim>\<open>|\<close> over
  \<^verbatim>\<open>Signature_().set(typeId_<Ts>, hasAccess_<Ts>(e))\<close>, here over the types \<open>Ts\<close>.\<close>

fun signature_fold :: "nat list \<Rightarrow> Entity \<Rightarrow> 'v Model \<Rightarrow> Signature \<Rightarrow> Signature option" where
  "signature_fold [] e m s = Some s"
| "signature_fold (T # Ts) e m s =
     (case hasAccess T e m of
        None \<Rightarrow> None
      | Some b \<Rightarrow> signature_fold Ts e m (s \<union> (if b then {T} else {})))"

definition computeSignature_entity :: "nat \<Rightarrow> Entity \<Rightarrow> 'v Model \<Rightarrow> Signature option" where
  "computeSignature_entity M e m = signature_fold [0..<M] e m {}"

text \<open>The loops over \<^verbatim>\<open>systems_\<close>: every iteration edits the system it visits and nothing
  else, so the order of the map plays no part.\<close>

definition insertInSystems :: "Entity \<Rightarrow> Signature \<Rightarrow> 'v Model \<Rightarrow> 'v Model" where
  "insertInSystems e s m =
     m\<lparr>systems := map (\<lambda>(h, sys).
          (h, if s \<inter> signature sys = signature sys then System_insert e sys else sys))
        (systems m)\<rparr>"

definition removeFromSystems :: "Entity \<Rightarrow> Signature \<Rightarrow> 'v Model \<Rightarrow> 'v Model" where
  "removeFromSystems e s m =
     m\<lparr>systems := map (\<lambda>(h, sys).
          (h, if s \<inter> signature sys = signature sys then System_remove e sys else sys))
        (systems m)\<rparr>"

definition createEntity :: "nat \<Rightarrow> nat \<Rightarrow> 'v Model \<Rightarrow> (Entity \<times> 'v Model) option" where
  "createEntity N M m =
     (case AccessMatrix_make N M (accessMatrix m) of
        None \<Rightarrow> None
      | Some (e, am) \<Rightarrow>
          Some (e, insertInSystems e {}
                     (m\<lparr>accessMatrix := am,
                        spawnedEntities := set_insert e (spawnedEntities m)\<rparr>)))"

definition Model_insert :: "nat \<Rightarrow> nat \<Rightarrow> Entity \<Rightarrow> 'v \<Rightarrow> 'v Model \<Rightarrow> 'v Model option" where
  "Model_insert M T e val m =
     do {
       c \<leftarrow> getComponent T m;
       (a, c') \<leftarrow> Some (Component_insert e val c);
       am \<leftarrow> AccessMatrix_assign e T a (accessMatrix m);
       m1 \<leftarrow> Some (m\<lparr>accessMatrix := am, components := (components m)[T := c']\<rparr>);
       s \<leftarrow> computeSignature_entity M e m1;
       Some (insertInSystems e s m1)
     }"

definition Model_remove :: "nat \<Rightarrow> Entity \<Rightarrow> 'v Model \<Rightarrow> 'v Model option" where
  "Model_remove T e m =
     do {
       a \<leftarrow> getAccess T e m;
       c \<leftarrow> getComponent T m;
       (repE, c') \<leftarrow> Component_remove a c;
       am1 \<leftarrow> AccessMatrix_reset e T (accessMatrix m);
       am2 \<leftarrow> (if repE \<noteq> e then AccessMatrix_assign repE T a am1 else Some am1);
       Some (removeFromSystems e (computeSignature_types [T])
               (m\<lparr>accessMatrix := am2, components := (components m)[T := c']\<rparr>))
     }"

definition Model_access :: "nat \<Rightarrow> Entity \<Rightarrow> 'v Model \<Rightarrow> 'v option" where
  "Model_access T e m =
     do {
       a \<leftarrow> getAccess T e m;
       c \<leftarrow> getComponent T m;
       Component_access a c
     }"

definition checkedRemove :: "nat \<Rightarrow> Entity \<Rightarrow> 'v Model \<Rightarrow> 'v Model option" where
  "checkedRemove T e m =
     (case hasAccess T e m of
        None \<Rightarrow> None
      | Some b \<Rightarrow> if b then Model_remove T e m else Some m)"

text \<open>\<^verbatim>\<open>(checkedRemove_<Ts>(e), ...)\<close>: one call per declared type, in the declared order.\<close>

fun checkedRemove_all :: "nat list \<Rightarrow> Entity \<Rightarrow> 'v Model \<Rightarrow> 'v Model option" where
  "checkedRemove_all [] e m = Some m"
| "checkedRemove_all (T # Ts) e m =
     (case checkedRemove T e m of
        None \<Rightarrow> None
      | Some m1 \<Rightarrow> checkedRemove_all Ts e m1)"

definition removeEntity :: "nat \<Rightarrow> Entity \<Rightarrow> 'v Model \<Rightarrow> 'v Model option" where
  "removeEntity M e m =
     do {
       m1 \<leftarrow> checkedRemove_all [0..<M] e m;
       am \<leftarrow> AccessMatrix_free M e (accessMatrix m1);
       Some (removeFromSystems e {}
               (m1\<lparr>accessMatrix := am,
                   spawnedEntities := set_erase e (spawnedEntities m1)\<rparr>))
     }"

text \<open>The loop of \<^verbatim>\<open>createSystem\<close> over \<^verbatim>\<open>spawnedEntities_\<close>. It edits the new system only and
  reads the access matrix only, so it runs on the system's value, stored in the map after it.\<close>

fun seedSystem :: "nat \<Rightarrow> Entity list \<Rightarrow> 'v Model \<Rightarrow> System \<Rightarrow> System option" where
  "seedSystem M [] m sys = Some sys"
| "seedSystem M (e # es) m sys =
     (case computeSignature_entity M e m of
        None \<Rightarrow> None
      | Some s \<Rightarrow>
          seedSystem M es m
            (if s \<inter> signature sys = signature sys then System_insert e sys else sys))"

text \<open>\<open>hSys\<close> is the address that \<^verbatim>\<open>std::make_unique\<close> returned for the new system;
  \<^verbatim>\<open>systems_[hSys] = ...\<close> inserts the key or replaces its value.\<close>

definition createSystem ::
  "nat \<Rightarrow> nat list \<Rightarrow> SystemHandle \<Rightarrow> 'v Model \<Rightarrow> (SystemHandle \<times> 'v Model) option" where
  "createSystem M Us hSys m =
     (case seedSystem M (spawnedEntities m) m
             \<lparr>signature = computeSignature_types Us, entities = []\<rparr> of
        None \<Rightarrow> None
      | Some sys \<Rightarrow> Some (hSys, m\<lparr>systems := AList.update hSys sys (systems m)\<rparr>))"

definition removeSystem :: "SystemHandle \<Rightarrow> 'v Model \<Rightarrow> 'v Model" where
  "removeSystem hSys m = m\<lparr>systems := AList.delete hSys (systems m)\<rparr>"

text \<open>A default-constructed \<^verbatim>\<open>Model<N, Ts...>\<close> with \<open>M\<close> component types.\<close>

definition Model_new :: "nat \<Rightarrow> 'v Model" where
  "Model_new M =
     \<lparr>accessMatrix = \<lparr>am_data = [], available = []\<rparr>,
      spawnedEntities = [],
      components = replicate M \<lparr>c_data = [], owners = []\<rparr>,
      systems = []\<rparr>"

subsection \<open>Sequences of public operations\<close>

text \<open>The public operations that change the entity population, in a sequence starting
  from a default-constructed Model. \<open>OpCreateSystem Us hSys\<close> carries the address of the new
  system.\<close>

datatype 'v Operation =
    OpCreateEntity
  | OpRemoveEntity Entity
  | OpInsert nat Entity 'v
  | OpRemove nat Entity
  | OpCreateSystem "nat list" SystemHandle

fun apply_op :: "nat \<Rightarrow> nat \<Rightarrow> 'v Operation \<Rightarrow> 'v Model \<Rightarrow> 'v Model option" where
  "apply_op N M OpCreateEntity m = map_option snd (createEntity N M m)"
| "apply_op N M (OpRemoveEntity e) m = removeEntity M e m"
| "apply_op N M (OpInsert T e v) m = Model_insert M T e v m"
| "apply_op N M (OpRemove T e) m = Model_remove T e m"
| "apply_op N M (OpCreateSystem Us hSys) m = map_option snd (createSystem M Us hSys m)"

fun run :: "nat \<Rightarrow> nat \<Rightarrow> 'v Operation list \<Rightarrow> 'v Model \<Rightarrow> 'v Model option" where
  "run N M [] m = Some m"
| "run N M (op # ops) m =
     (case apply_op N M op m of None \<Rightarrow> None | Some m1 \<Rightarrow> run N M ops m1)"

subsection \<open>The properties the specification names\<close>

text \<open>The spawned entities whose signature is a superset of \<open>S\<close>.\<close>

definition matching :: "nat \<Rightarrow> Signature \<Rightarrow> 'v Model \<Rightarrow> Entity list" where
  "matching M S m =
     filter (\<lambda>e. case computeSignature_entity M e m of None \<Rightarrow> False | Some s \<Rightarrow> S \<subseteq> s)
       (spawnedEntities m)"

text \<open>Global invariant (c): every registered system's working set is the set of the
  matching entities.\<close>

definition systems_synced :: "nat \<Rightarrow> 'v Model \<Rightarrow> bool" where
  "systems_synced M m =
     list_all (\<lambda>(h, sys). set (entities sys) = set (matching M (signature sys) m)) (systems m)"

text \<open>What the C++ types and the constructors fix: the tuple has \<open>M\<close> stores, every cell has
  \<open>M\<close> accessors, the two vectors of a store are parallel, and a spawned entity points into
  an allocated block.\<close>

definition wf_Model :: "nat \<Rightarrow> 'v Model \<Rightarrow> bool" where
  "wf_Model M m \<longleftrightarrow>
     length (components m) = M \<and>
     list_all (\<lambda>slot. length slot = M) (am_data (accessMatrix m)) \<and>
     list_all (\<lambda>c. length (c_data c) = length (owners c)) (components m) \<and>
     list_all (\<lambda>e. e < length (am_data (accessMatrix m))) (spawnedEntities m)"

text \<open>Global invariant (b) for the component type \<open>T\<close>, on the cells \<open>sl\<close> and the owners
  \<open>ow\<close> of the store: the owner recorded at every offset of the store is the entity whose
  accessor is that offset, and an accessor that is not the sentinel is an offset of the store
  recorded for its entity.\<close>

definition store_slot_ok :: "nat \<Rightarrow> nat list list \<Rightarrow> Entity list \<Rightarrow> bool" where
  "store_slot_ok T sl ow \<longleftrightarrow>
     list_all (\<lambda>a. ow ! a < length sl \<and> sl ! (ow ! a) ! T = a) [0..<length ow] \<and>
     list_all (\<lambda>e. sl ! e ! T = maxAccessor \<or> (sl ! e ! T < length ow \<and> ow ! (sl ! e ! T) = e))
       [0..<length sl]"

definition consistent :: "nat \<Rightarrow> 'v Model \<Rightarrow> bool" where
  "consistent T m \<longleftrightarrow>
     store_slot_ok T (am_data (accessMatrix m)) (owners (components m ! T))"

text \<open>The allocator's invariant: every cell of the free list is allocated and all-absent.\<close>

definition free_slots_absent :: "nat \<Rightarrow> AccessMatrix \<Rightarrow> bool" where
  "free_slots_absent M am \<longleftrightarrow>
     list_all (\<lambda>i. i < length (am_data am) \<and> am_data am ! i = defaultAccessors M) (available am)"

subsection \<open>The invariant of the runs that respect the contract\<close>

text \<open>What holds in every state that the public operations reach when the caller keeps the
  contract of the specification: a well-formed Model, every store in agreement with the cells,
  owners that are spawned, stores below \<^verbatim>\<open>SIZE_MAX\<close> elements, and a free list of distinct,
  all-absent cells that are not spawned.\<close>

definition Model_inv :: "nat \<Rightarrow> 'v Model \<Rightarrow> bool" where
  "Model_inv M m \<longleftrightarrow>
     wf_Model M m \<and>
     list_all (\<lambda>T. consistent T m \<and>
                   list_all (\<lambda>x. x \<in> set (spawnedEntities m)) (owners (components m ! T)) \<and>
                   length (owners (components m ! T)) \<le> maxAccessor) [0..<M] \<and>
     free_slots_absent M (accessMatrix m) \<and>
     list_all (\<lambda>i. i \<notin> set (spawnedEntities m)) (available (accessMatrix m)) \<and>
     distinct (available (accessMatrix m))"

text \<open>The contract of one call: a block holds at least one cell; handles are spawned
  entities; a component is inserted where it is absent and the store has room, and removed
  where it is present.\<close>

fun op_ok :: "nat \<Rightarrow> nat \<Rightarrow> 'v Operation \<Rightarrow> 'v Model \<Rightarrow> bool" where
  "op_ok N M OpCreateEntity m \<longleftrightarrow> 0 < N"
| "op_ok N M (OpRemoveEntity e) m \<longleftrightarrow> e \<in> set (spawnedEntities m)"
| "op_ok N M (OpInsert T e v) m \<longleftrightarrow>
     T < M \<and> e \<in> set (spawnedEntities m) \<and> hasAccess T e m = Some False \<and>
     length (c_data (components m ! T)) < maxAccessor"
| "op_ok N M (OpRemove T e) m \<longleftrightarrow>
     T < M \<and> e \<in> set (spawnedEntities m) \<and> hasAccess T e m = Some True"
| "op_ok N M (OpCreateSystem Us hSys) m \<longleftrightarrow> True"

fun contract :: "nat \<Rightarrow> nat \<Rightarrow> 'v Operation list \<Rightarrow> 'v Model \<Rightarrow> bool" where
  "contract N M [] m \<longleftrightarrow> True"
| "contract N M (op # ops) m \<longleftrightarrow>
     op_ok N M op m \<and>
     (case apply_op N M op m of None \<Rightarrow> True | Some m1 \<Rightarrow> contract N M ops m1)"

text \<open>The signature of an entity read off the cells, and the operations that remove
  nothing.\<close>

definition sig_of :: "nat \<Rightarrow> Entity \<Rightarrow> 'v Model \<Rightarrow> Signature" where
  "sig_of M e m = {T. T < M \<and> am_data (accessMatrix m) ! e ! T \<noteq> maxAccessor}"

fun no_removal :: "'v Operation \<Rightarrow> bool" where
  "no_removal (OpRemoveEntity e) = False"
| "no_removal (OpRemove T e) = False"
| "no_removal _ = True"

subsection \<open>Closed forms used in the proofs\<close>

text \<open>One accessor written, as \<open>AccessMatrix_assign\<close> writes it.\<close>

definition put :: "Index \<Rightarrow> nat \<Rightarrow> nat \<Rightarrow> nat list list \<Rightarrow> nat list list" where
  "put i p v sl = sl[i := (sl ! i)[p := v]]"

text \<open>The cells after \<^verbatim>\<open>Model::remove<T>(e)\<close>: the accessor of \<open>e\<close> reset, the accessor of the
  relocated owner \<open>repE\<close> patched to the offset \<open>a\<close>.\<close>

definition slots_after_remove ::
  "nat \<Rightarrow> Entity \<Rightarrow> Entity \<Rightarrow> nat \<Rightarrow> nat list list \<Rightarrow> nat list list" where
  "slots_after_remove T e repE a sl =
     (if repE \<noteq> e then put repE T a (put e T maxAccessor sl) else put e T maxAccessor sl)"

text \<open>The Model after \<^verbatim>\<open>remove<T>(e)\<close> and after \<^verbatim>\<open>insert<T>(e, v)\<close>, before the loop over the
  systems.\<close>

definition remove_core :: "nat \<Rightarrow> Entity \<Rightarrow> 'v Model \<Rightarrow> 'v Model" where
  "remove_core T e m =
     (let sl = am_data (accessMatrix m); c = components m ! T; a = sl ! e ! T in
      m\<lparr>accessMatrix :=
          (accessMatrix m)\<lparr>am_data := slots_after_remove T e (last (owners c)) a sl\<rparr>,
        components := (components m)
          [T := c\<lparr>c_data := take (length (c_data c) - 1) ((c_data c)[a := last (c_data c)]),
                  owners := take (length (owners c) - 1) ((owners c)[a := last (owners c)])\<rparr>]\<rparr>)"

definition insert_core :: "nat \<Rightarrow> Entity \<Rightarrow> 'v \<Rightarrow> 'v Model \<Rightarrow> 'v Model" where
  "insert_core T e v m =
     (let c = components m ! T in
      m\<lparr>accessMatrix :=
          (accessMatrix m)\<lparr>am_data := put e T (length (c_data c)) (am_data (accessMatrix m))\<rparr>,
        components :=
          (components m)[T := c\<lparr>c_data := c_data c @ [v], owners := owners c @ [e]\<rparr>]\<rparr>)"

subsection \<open>Example states\<close>

text \<open>Two component types, blocks of two cells. Entities 0 and 1 own type 0, entity 1 owns
  type 1 as well, and one system requires type 0.\<close>

definition ex1 :: "nat Model" where
  "ex1 =
     \<lparr>accessMatrix = \<lparr>am_data = [[0, maxAccessor], [1, 0]], available = []\<rparr>,
      spawnedEntities = [0, 1],
      components = [\<lparr>c_data = [10, 11], owners = [0, 1]\<rparr>, \<lparr>c_data = [20], owners = [1]\<rparr>],
      systems = [(100, \<lparr>signature = {0}, entities = [0, 1]\<rparr>)]\<rparr>"

text \<open>Entity 0 owns both types; system 100 requires both types, system 200 requires none.\<close>

definition ex2 :: "nat Model" where
  "ex2 =
     \<lparr>accessMatrix = \<lparr>am_data = [[0, 0], [maxAccessor, maxAccessor]], available = [1]\<rparr>,
      spawnedEntities = [0],
      components = [\<lparr>c_data = [7], owners = [0]\<rparr>, \<lparr>c_data = [8], owners = [0]\<rparr>],
      systems = [(100, \<lparr>signature = {0, 1}, entities = [0]\<rparr>),
                 (200, \<lparr>signature = {}, entities = [0]\<rparr>)]\<rparr>"

section \<open>Evaluation at concrete inputs\<close>

lemmas eval_defs =
  Model_new_def createSystem_def createEntity_def Model_insert_def Model_remove_def
  Model_access_def removeEntity_def removeSystem_def checkedRemove_def
  computeSignature_types_def computeSignature_entity_def
  AccessMatrix_make_def AccessMatrix_free_def expand_def defaultAccessors_def
  insertInSystems_def removeFromSystems_def System_insert_def System_remove_def
  set_insert_def set_erase_def getComponent_def getAccess_def hasAccess_def
  AccessMatrix_get_def AccessMatrix_has_def AccessMatrix_assign_def AccessMatrix_reset_def
  Component_insert_def Component_remove_def Component_access_def
  matching_def systems_synced_def wf_Model_def consistent_def store_slot_ok_def
  free_slots_absent_def

lemma upt_0_2: "[0..<2] = [0, 1]"
  by (simp add: upt_rec)

lemma replicate_2: "replicate 2 x = [x, x]"
  by (simp add: numeral_2_eq_2)

lemma below_maxAccessor: "n < 18446744073709551615 \<Longrightarrow> n \<noteq> maxAccessor"
  by (simp add: maxAccessor_def)

section \<open>Store, cells and signatures: lemmas\<close>

subsection \<open>The store and slot invariant under swap-removal\<close>

lemma store_slot_ok_iff:
  "store_slot_ok T sl ow \<longleftrightarrow>
     (\<forall>a<length ow. ow ! a < length sl \<and> sl ! (ow ! a) ! T = a) \<and>
     (\<forall>e<length sl. sl ! e ! T = maxAccessor \<or> (sl ! e ! T < length ow \<and> ow ! (sl ! e ! T) = e))"
  by (auto simp: store_slot_ok_def list_all_iff)

lemma length_put [simp]: "length (put i p v sl) = length sl"
  by (simp add: put_def)

lemma length_nth_put [simp]: "length (put i p v sl ! j) = length (sl ! j)"
  by (cases "i < length sl"; cases "j = i") (simp_all add: put_def not_less list_update_beyond)

lemma nth_put:
  "i < length sl \<Longrightarrow> p < length (sl ! i) \<Longrightarrow>
   put i p v sl ! j ! q = (if j = i \<and> q = p then v else sl ! j ! q)"
  by (cases "j = i"; cases "q = p") (simp_all add: put_def)

lemma nth_put_other: "q \<noteq> p \<Longrightarrow> put i p v sl ! j ! q = sl ! j ! q"
  by (cases "i < length sl"; cases "j = i") (simp_all add: put_def not_less list_update_beyond)

lemma swap_remove_ok:
  assumes ok: "store_slot_ok T sl ow"
    and e: "e < length sl" and len: "\<forall>x<length sl. T < length (sl ! x)"
    and a: "sl ! e ! T = a" "a \<noteq> maxAccessor"
  shows "store_slot_ok T (slots_after_remove T e (last ow) a sl)
           (take (length ow - 1) (ow[a := last ow]))"
proof -
  let ?n = "length ow"
  let ?r = "last ow"
  have A: "\<And>b. b < ?n \<Longrightarrow> ow ! b < length sl \<and> sl ! (ow ! b) ! T = b"
    and B: "\<And>x. x < length sl \<Longrightarrow> sl ! x ! T = maxAccessor \<or> (sl ! x ! T < ?n \<and> ow ! (sl ! x ! T) = x)"
    using ok by (auto simp: store_slot_ok_iff)
  have an: "a < ?n" and owa: "ow ! a = e"
    using B[OF e] a by auto
  then have ne: "ow \<noteq> []" by auto
  have r: "?r = ow ! (?n - 1)" using ne by (rule last_conv_nth)
  have rn: "?r < length sl" and rT: "sl ! ?r ! T = ?n - 1"
    using A[of "?n - 1"] an r by auto
  have re: "?r = e \<longleftrightarrow> a = ?n - 1"
    using rT a(1) owa r by auto
  let ?sl' = "slots_after_remove T e ?r a sl"
  have cell: "\<And>x. x < length sl \<Longrightarrow> ?sl' ! x ! T =
      (if x = e then maxAccessor else if x = ?r then a else sl ! x ! T)"
    using e rn len by (auto simp: slots_after_remove_def nth_put)
  have l: "length ?sl' = length sl"
    by (simp add: slots_after_remove_def)
  show ?thesis
    unfolding store_slot_ok_iff
  proof (intro conjI allI impI)
    fix b assume "b < length (take (?n - 1) (ow[a := ?r]))"
    then have b: "b < ?n - 1" by simp
    show "take (?n - 1) (ow[a := ?r]) ! b < length ?sl'"
      using b A[of b] rn l by (cases "b = a") auto
    show "?sl' ! (take (?n - 1) (ow[a := ?r]) ! b) ! T = b"
    proof (cases "b = a")
      case True
      then show ?thesis using b re rn cell[OF rn] an by auto
    next
      case False
      have "ow ! b \<noteq> e" using False A[of b] b a(1) by auto
      moreover have "b < ?n" using b by simp
      then have "ow ! b \<noteq> ?r" using A[of b] b rT by auto
      ultimately show ?thesis using False b A[of b] cell[of "ow ! b"] by auto
    qed
  next
    fix x assume "x < length ?sl'"
    then have x: "x < length sl" using l by simp
    show "?sl' ! x ! T = maxAccessor \<or>
        (?sl' ! x ! T < length (take (?n - 1) (ow[a := ?r])) \<and>
         take (?n - 1) (ow[a := ?r]) ! (?sl' ! x ! T) = x)"
    proof (cases "x = e")
      case True
      then show ?thesis using cell[OF x] by simp
    next
      case xe: False
      show ?thesis
      proof (cases "x = ?r")
        case True
        then have "a < ?n - 1" using xe re an by auto
        then show ?thesis using True xe cell[OF x] an by auto
      next
        case False
        have c: "?sl' ! x ! T = sl ! x ! T" using cell[OF x] xe False by simp
        show ?thesis
        proof (cases "sl ! x ! T = maxAccessor")
          case True
          then show ?thesis using c by simp
        next
          case nm: False
          then have bn: "sl ! x ! T < ?n" and bo: "ow ! (sl ! x ! T) = x"
            using B[OF x] by auto
          have "sl ! x ! T \<noteq> ?n - 1" using bo r False by auto
          moreover have "sl ! x ! T \<noteq> a" using bo owa xe by auto
          ultimately show ?thesis using c bn bo by auto
        qed
      qed
    qed
  qed
qed

subsection \<open>Reading and writing the Model\<close>

lemma consistent_iff: "consistent T m \<longleftrightarrow>
   store_slot_ok T (am_data (accessMatrix m)) (owners (components m ! T))"
  by (simp add: consistent_def)

lemma AccessMatrix_assign_put:
  "i < length (am_data am) \<Longrightarrow> p < length (am_data am ! i) \<Longrightarrow>
   AccessMatrix_assign i p v am = Some (am\<lparr>am_data := put i p v (am_data am)\<rparr>)"
  by (simp add: AccessMatrix_assign_def put_def)

lemma hasAccess_eq:
  "e < length (am_data (accessMatrix m)) \<Longrightarrow> T < length (am_data (accessMatrix m) ! e) \<Longrightarrow>
   hasAccess T e m = Some (am_data (accessMatrix m) ! e ! T \<noteq> maxAccessor)"
  by (simp add: hasAccess_def AccessMatrix_has_def AccessMatrix_get_def)

lemma hasAccess_SomeD:
  "hasAccess T e m = Some b \<Longrightarrow>
   e < length (am_data (accessMatrix m)) \<and> T < length (am_data (accessMatrix m) ! e) \<and>
   b = (am_data (accessMatrix m) ! e ! T \<noteq> maxAccessor)"
  by (auto simp: hasAccess_def AccessMatrix_has_def AccessMatrix_get_def split: if_splits)

lemma signature_fold_eq:
  "e < length (am_data (accessMatrix m)) \<Longrightarrow>
   \<forall>T\<in>set Ts. T < length (am_data (accessMatrix m) ! e) \<Longrightarrow>
   signature_fold Ts e m s =
     Some (s \<union> {T \<in> set Ts. am_data (accessMatrix m) ! e ! T \<noteq> maxAccessor})"
  by (induction Ts arbitrary: s) (auto simp: hasAccess_eq)

lemma computeSignature_entity_eq:
  "e < length (am_data (accessMatrix m)) \<Longrightarrow> length (am_data (accessMatrix m) ! e) = M \<Longrightarrow>
   computeSignature_entity M e m =
     Some {T. T < M \<and> am_data (accessMatrix m) ! e ! T \<noteq> maxAccessor}"
  by (simp add: computeSignature_entity_def signature_fold_eq)

lemma computeSignature_types_eq: "computeSignature_types Us = set Us"
proof -
  have "fold (\<lambda>U s. s \<union> {U}) Us s = s \<union> set Us" for s
    by (induction Us arbitrary: s) auto
  then show ?thesis by (simp add: computeSignature_types_def)
qed

lemma inSystems_fields [simp]:
  "accessMatrix (insertInSystems e s m) = accessMatrix m"
  "spawnedEntities (insertInSystems e s m) = spawnedEntities m"
  "components (insertInSystems e s m) = components m"
  "accessMatrix (removeFromSystems e s m) = accessMatrix m"
  "spawnedEntities (removeFromSystems e s m) = spawnedEntities m"
  "components (removeFromSystems e s m) = components m"
  by (simp_all add: insertInSystems_def removeFromSystems_def)

lemma Model_remove_eq:
  assumes T: "T < length (components m)"
    and e: "e < length (am_data (accessMatrix m))" "T < length (am_data (accessMatrix m) ! e)"
    and a: "am_data (accessMatrix m) ! e ! T < length (owners (components m ! T))"
           "am_data (accessMatrix m) ! e ! T < length (c_data (components m ! T))"
    and r: "last (owners (components m ! T)) < length (am_data (accessMatrix m))"
           "T < length (am_data (accessMatrix m) ! last (owners (components m ! T)))"
  shows "Model_remove T e m = Some (removeFromSystems e {T} (remove_core T e m))"
  using assms
  by (simp add: Model_remove_def getAccess_def AccessMatrix_get_def getComponent_def
      Component_remove_def Let_def AccessMatrix_reset_def AccessMatrix_assign_put
      computeSignature_types_eq remove_core_def slots_after_remove_def)

lemma wf_Model_iff:
  "wf_Model M m \<longleftrightarrow>
     length (components m) = M \<and>
     (\<forall>x<length (am_data (accessMatrix m)). length (am_data (accessMatrix m) ! x) = M) \<and>
     (\<forall>T<length (components m). length (c_data (components m ! T)) = length (owners (components m ! T))) \<and>
     (\<forall>e\<in>set (spawnedEntities m). e < length (am_data (accessMatrix m)))"
  by (simp add: wf_Model_def list_all_length all_set_conv_all_nth)

lemma length_slots_after_remove [simp]:
  "length (slots_after_remove T e r a sl) = length sl"
  "length (slots_after_remove T e r a sl ! x) = length (sl ! x)"
  by (simp_all add: slots_after_remove_def)

lemma slots_after_remove_other:
  "T' \<noteq> T \<Longrightarrow> slots_after_remove T e r a sl ! x ! T' = sl ! x ! T'"
  by (simp add: slots_after_remove_def nth_put_other)

lemma remove_core_fields [simp]:
  "spawnedEntities (remove_core T e m) = spawnedEntities m"
  "systems (remove_core T e m) = systems m"
  "length (components (remove_core T e m)) = length (components m)"
  "length (am_data (accessMatrix (remove_core T e m))) = length (am_data (accessMatrix m))"
  "length (am_data (accessMatrix (remove_core T e m)) ! x) = length (am_data (accessMatrix m) ! x)"
  "available (accessMatrix (remove_core T e m)) = available (accessMatrix m)"
  by (simp_all add: remove_core_def Let_def)

lemma remove_core_other:
  assumes "T' \<noteq> T"
  shows "components (remove_core T e m) ! T' = components m ! T'"
    and "am_data (accessMatrix (remove_core T e m)) ! x ! T' = am_data (accessMatrix m) ! x ! T'"
  using assms by (simp_all add: remove_core_def Let_def slots_after_remove_other)

lemma wf_remove_core:
  assumes "wf_Model M m"
  shows "wf_Model M (remove_core T e m)"
proof -
  have "length (c_data (components (remove_core T e m) ! T')) =
        length (owners (components (remove_core T e m) ! T'))"
    if "T' < length (components m)" for T'
  proof (cases "T' = T")
    case True
    then show ?thesis
      using assms that by (simp add: remove_core_def Let_def wf_Model_iff)
  next
    case False
    then show ?thesis
      using assms that by (simp add: remove_core_other wf_Model_iff)
  qed
  then show ?thesis
    using assms by (simp add: wf_Model_iff)
qed

lemma consistent_remove_core_other:
  assumes "T' \<noteq> T" and "consistent T' m"
  shows "consistent T' (remove_core T e m)"
  using assms by (simp add: consistent_iff store_slot_ok_iff remove_core_other)

lemma consistent_remove_core:
  assumes wf: "wf_Model M m" and T: "T < M" and ok: "consistent T m"
    and own: "hasAccess T e m = Some True"
  shows "consistent T (remove_core T e m)"
proof -
  let ?sl = "am_data (accessMatrix m)"
  have e: "e < length ?sl" and a: "?sl ! e ! T \<noteq> maxAccessor"
    using hasAccess_SomeD[OF own] by auto
  have len: "\<forall>x<length ?sl. T < length (?sl ! x)"
    using wf T by (simp add: wf_Model_iff)
  have "store_slot_ok T (slots_after_remove T e (last (owners (components m ! T))) (?sl ! e ! T) ?sl)
          (take (length (owners (components m ! T)) - 1)
             ((owners (components m ! T))[?sl ! e ! T := last (owners (components m ! T))]))"
    using ok e len a by (intro swap_remove_ok) (simp_all add: consistent_iff)
  moreover have "T < length (components m)"
    using wf T by (simp add: wf_Model_iff)
  ultimately show ?thesis
    by (simp add: consistent_iff remove_core_def Let_def)
qed

lemma Model_remove_defined:
  assumes wf: "wf_Model M m" and T: "T < M" and ok: "consistent T m"
    and own: "hasAccess T e m = Some True"
  shows "Model_remove T e m = Some (removeFromSystems e {T} (remove_core T e m))"
proof -
  let ?sl = "am_data (accessMatrix m)"
  let ?ow = "owners (components m ! T)"
  have e: "e < length ?sl" "T < length (?sl ! e)" and a: "?sl ! e ! T \<noteq> maxAccessor"
    using hasAccess_SomeD[OF own] by auto
  have TT: "T < length (components m)"
    using wf T by (simp add: wf_Model_iff)
  have l: "length (c_data (components m ! T)) = length ?ow"
    using wf TT by (simp add: wf_Model_iff)
  have A: "\<And>b. b < length ?ow \<Longrightarrow> ?ow ! b < length ?sl"
    and B: "?sl ! e ! T < length ?ow"
    using ok e a by (auto simp: consistent_iff store_slot_ok_iff)
  have "?ow \<noteq> []" using B by auto
  then have "last ?ow = ?ow ! (length ?ow - 1)" by (rule last_conv_nth)
  then have r: "last ?ow < length ?sl"
    using A[of "length ?ow - 1"] B by simp
  then have "T < length (?sl ! last ?ow)"
    using wf T by (simp add: wf_Model_iff)
  then show ?thesis
    using TT e B l r by (intro Model_remove_eq) simp_all
qed

lemma nth_put_neq: "j \<noteq> i \<Longrightarrow> put i p v sl ! j = sl ! j"
  by (simp add: put_def)

lemma slots_after_remove_cell:
  assumes "e < length sl" "T < length (sl ! e)"
    and "r \<noteq> e \<Longrightarrow> r < length sl \<and> T < length (sl ! r)"
  shows "slots_after_remove T e r a sl ! x ! T =
      (if x = e then maxAccessor else if x = r then a else sl ! x ! T)"
  using assms by (auto simp: slots_after_remove_def nth_put nth_put_neq)

lemma slots_after_remove_self:
  assumes "e < length sl" "T < length (sl ! e)"
  shows "slots_after_remove T e r a sl ! e ! T = maxAccessor"
  using assms by (auto simp: slots_after_remove_def nth_put nth_put_neq)

lemma after_inSystems [simp]:
  "hasAccess T e (removeFromSystems x s m) = hasAccess T e m"
  "hasAccess T e (insertInSystems x s m) = hasAccess T e m"
  "getAccess T e (removeFromSystems x s m) = getAccess T e m"
  "getAccess T e (insertInSystems x s m) = getAccess T e m"
  "getComponent T (removeFromSystems x s m) = getComponent T m"
  "getComponent T (insertInSystems x s m) = getComponent T m"
  "wf_Model M (removeFromSystems x s m) = wf_Model M m"
  "wf_Model M (insertInSystems x s m) = wf_Model M m"
  "consistent T (removeFromSystems x s m) = consistent T m"
  "consistent T (insertInSystems x s m) = consistent T m"
  by (simp_all add: hasAccess_def getAccess_def getComponent_def wf_Model_def consistent_def)

lemma Model_access_inSystems [simp]:
  "Model_access T e (removeFromSystems x s m) = Model_access T e m"
  "Model_access T e (insertInSystems x s m) = Model_access T e m"
  by (simp_all add: Model_access_def)

lemma signature_fold_accessMatrix:
  "accessMatrix m' = accessMatrix m \<Longrightarrow> signature_fold Ts e m' s = signature_fold Ts e m s"
  by (induction Ts arbitrary: s) (simp_all add: hasAccess_def split: option.splits)

lemma computeSignature_entity_accessMatrix:
  "accessMatrix m' = accessMatrix m \<Longrightarrow>
   computeSignature_entity M e m' = computeSignature_entity M e m"
  unfolding computeSignature_entity_def by (rule signature_fold_accessMatrix)

lemma computeSignature_entity_inSystems [simp]:
  "computeSignature_entity M e (removeFromSystems x s m) = computeSignature_entity M e m"
  "computeSignature_entity M e (insertInSystems x s m) = computeSignature_entity M e m"
  by (rule computeSignature_entity_accessMatrix, simp)+

lemma Model_insert_eq:
  assumes wf: "wf_Model M m" and e: "e < length (am_data (accessMatrix m))" and T: "T < M"
  shows "Model_insert M T e v m =
     Some (insertInSystems e
       {T'. T' < M \<and> am_data (accessMatrix (insert_core T e v m)) ! e ! T' \<noteq> maxAccessor}
       (insert_core T e v m))"
proof -
  have TT: "T < length (components m)" and l: "length (am_data (accessMatrix m) ! e) = M"
    using wf e T by (simp_all add: wf_Model_iff)
  have "computeSignature_entity M e (insert_core T e v m) =
     Some {T'. T' < M \<and> am_data (accessMatrix (insert_core T e v m)) ! e ! T' \<noteq> maxAccessor}"
    using e l by (intro computeSignature_entity_eq) (simp_all add: insert_core_def Let_def)
  then show ?thesis
    using TT e l T
    by (simp add: Model_insert_def getComponent_def Component_insert_def
        AccessMatrix_assign_put insert_core_def Let_def)
qed

lemma insert_core_cell:
  assumes "e < length (am_data (accessMatrix m))" "T < length (am_data (accessMatrix m) ! e)"
  shows "am_data (accessMatrix (insert_core T e v m)) ! x ! T' =
     (if x = e \<and> T' = T then length (c_data (components m ! T))
      else am_data (accessMatrix m) ! x ! T')"
  using assms by (simp add: insert_core_def Let_def nth_put)

subsection \<open>Seeding a new system\<close>

lemma set_set_insert [simp]: "set (set_insert e xs) = insert e (set xs)"
  by (auto simp: set_insert_def set_insort_key)

lemma set_set_erase [simp]: "set (set_erase e xs) = set xs - {e}"
  by (simp add: set_erase_def)

lemma seedSystem_eq:
  assumes "\<forall>x<length (am_data (accessMatrix m)). length (am_data (accessMatrix m) ! x) = M"
    and "\<forall>e\<in>set es. e < length (am_data (accessMatrix m))"
  shows "\<exists>sys'. seedSystem M es m sys = Some sys' \<and> signature sys' = signature sys \<and>
     set (entities sys') = set (entities sys) \<union>
       {e \<in> set es. signature sys \<subseteq> {T. T < M \<and> am_data (accessMatrix m) ! e ! T \<noteq> maxAccessor}}"
  using assms
proof (induction es arbitrary: sys)
  case Nil
  then show ?case by simp
next
  case (Cons e es)
  let ?s = "{T. T < M \<and> am_data (accessMatrix m) ! e ! T \<noteq> maxAccessor}"
  let ?sys1 = "if ?s \<inter> signature sys = signature sys then System_insert e sys else sys"
  have s: "computeSignature_entity M e m = Some ?s"
    using Cons.prems by (intro computeSignature_entity_eq) simp_all
  obtain sys' where 1: "seedSystem M es m ?sys1 = Some sys'"
    and 2: "signature sys' = signature ?sys1"
    and 3: "set (entities sys') = set (entities ?sys1) \<union>
       {e \<in> set es. signature ?sys1 \<subseteq> {T. T < M \<and> am_data (accessMatrix m) ! e ! T \<noteq> maxAccessor}}"
    using Cons.IH[of ?sys1] Cons.prems by auto
  have sig1: "signature ?sys1 = signature sys"
    by (simp add: System_insert_def)
  have ent1: "set (entities ?sys1) = set (entities sys) \<union> (if signature sys \<subseteq> ?s then {e} else {})"
    by (auto simp: System_insert_def)
  have "seedSystem M (e # es) m sys = Some sys'"
    using s 1 by simp
  moreover have "signature sys' = signature sys"
    using 2 sig1 by simp
  moreover have "set (entities sys') = set (entities sys) \<union>
       {x \<in> set (e # es). signature sys \<subseteq> {T. T < M \<and> am_data (accessMatrix m) ! x ! T \<noteq> maxAccessor}}"
    unfolding 3 ent1 sig1 by auto
  ultimately show ?case by blast
qed

lemma set_matching:
  assumes "wf_Model M m"
  shows "set (matching M S m) =
     {e \<in> set (spawnedEntities m). S \<subseteq> {T. T < M \<and> am_data (accessMatrix m) ! e ! T \<noteq> maxAccessor}}"
proof -
  have "computeSignature_entity M e m =
      Some {T. T < M \<and> am_data (accessMatrix m) ! e ! T \<noteq> maxAccessor}"
    if "e \<in> set (spawnedEntities m)" for e
    using assms that by (intro computeSignature_entity_eq) (simp_all add: wf_Model_iff)
  then show ?thesis
    by (auto simp: matching_def)
qed

subsection \<open>Destroying an entity, and the allocator\<close>

lemma checkedRemove_inv:
  assumes wf: "wf_Model M m" and ok: "\<forall>T<M. consistent T m"
    and e: "e < length (am_data (accessMatrix m))" and T: "T < M"
  shows "\<exists>m1. checkedRemove T e m = Some m1 \<and> wf_Model M m1 \<and> (\<forall>T<M. consistent T m1) \<and>
     length (am_data (accessMatrix m1)) = length (am_data (accessMatrix m)) \<and>
     spawnedEntities m1 = spawnedEntities m \<and>
     available (accessMatrix m1) = available (accessMatrix m)"
proof -
  have l: "T < length (am_data (accessMatrix m) ! e)"
    using wf e T by (simp add: wf_Model_iff)
  show ?thesis
  proof (cases "am_data (accessMatrix m) ! e ! T = maxAccessor")
    case True
    then have "checkedRemove T e m = Some m"
      using e l by (simp add: checkedRemove_def hasAccess_eq)
    then show ?thesis using wf ok by simp
  next
    case False
    then have own: "hasAccess T e m = Some True"
      using e l by (simp add: hasAccess_eq)
    let ?m1 = "remove_core T e m"
    have okT: "consistent T m" using ok T by simp
    have r: "checkedRemove T e m = Some (removeFromSystems e {T} ?m1)"
      using own Model_remove_defined[OF wf T okT own] by (simp add: checkedRemove_def)
    have "consistent T' ?m1" if "T' < M" for T'
    proof (cases "T' = T")
      case True
      then show ?thesis using consistent_remove_core[OF wf T okT own] by simp
    next
      case False
      then show ?thesis using ok that by (simp add: consistent_remove_core_other)
    qed
    then show ?thesis
      using r wf_remove_core[OF wf, of T e] by simp
  qed
qed

lemma checkedRemove_all_inv:
  assumes "wf_Model M m" and "\<forall>T<M. consistent T m"
    and "e < length (am_data (accessMatrix m))" and "\<forall>T\<in>set Ts. T < M"
  shows "\<exists>m1. checkedRemove_all Ts e m = Some m1 \<and> wf_Model M m1 \<and> (\<forall>T<M. consistent T m1) \<and>
     length (am_data (accessMatrix m1)) = length (am_data (accessMatrix m)) \<and>
     spawnedEntities m1 = spawnedEntities m \<and>
     available (accessMatrix m1) = available (accessMatrix m)"
  using assms
proof (induction Ts arbitrary: m)
  case Nil
  then show ?case by simp
next
  case (Cons T Ts)
  obtain m1 where 1: "checkedRemove T e m = Some m1" and 2: "wf_Model M m1"
    and 3: "\<forall>T<M. consistent T m1"
    and 4: "length (am_data (accessMatrix m1)) = length (am_data (accessMatrix m))"
    and 5: "spawnedEntities m1 = spawnedEntities m"
    and 6: "available (accessMatrix m1) = available (accessMatrix m)"
    using checkedRemove_inv[OF Cons.prems(1,2,3), of T] Cons.prems(4) by auto
  obtain m2 where "checkedRemove_all Ts e m1 = Some m2" and "wf_Model M m2"
    and "\<forall>T<M. consistent T m2"
    and "length (am_data (accessMatrix m2)) = length (am_data (accessMatrix m1))"
    and "spawnedEntities m2 = spawnedEntities m1"
    and "available (accessMatrix m2) = available (accessMatrix m1)"
    using Cons.IH[OF 2 3] Cons.prems(3,4) 4 by auto
  then show ?case
    using 1 4 5 6 by simp
qed

lemma fold_Cons_rev: "fold (\<lambda>it av. it # av) xs av = rev xs @ av"
  by (induction xs arbitrary: av) simp_all

lemma AccessMatrix_make_absent:
  assumes fr: "free_slots_absent M am" and N: "0 < N"
  shows "\<exists>i am'. AccessMatrix_make N M am = Some (i, am') \<and>
     (\<forall>p<M. AccessMatrix_has i p am' = Some False) \<and> free_slots_absent M am'"
proof (cases "available am = []")
  case True
  let ?b = "length (am_data am)"
  let ?am1 = "expand N M am"
  have av: "available ?am1 = rev [?b..<?b + N]"
    using True by (simp add: expand_def fold_Cons_rev)
  have ne: "available ?am1 \<noteq> []" using av N by simp
  have la: "last (available ?am1) = ?b"
    using N by (simp add: av last_rev upt_conv_Cons)
  have dat: "am_data ?am1 = am_data am @ replicate N (defaultAccessors M)"
    by (simp add: expand_def)
  have fr1: "free_slots_absent M ?am1"
    by (auto simp: free_slots_absent_def av dat list_all_iff nth_append)
  have mk: "AccessMatrix_make N M am = Some (?b, ?am1\<lparr>available := butlast (available ?am1)\<rparr>)"
    using True ne la by (simp add: AccessMatrix_make_def Let_def)
  have "AccessMatrix_has ?b p (?am1\<lparr>available := butlast (available ?am1)\<rparr>) = Some False"
    if "p < M" for p
    using that N
    by (simp add: AccessMatrix_has_def AccessMatrix_get_def expand_def nth_append
        defaultAccessors_def)
  moreover have "free_slots_absent M (?am1\<lparr>available := butlast (available ?am1)\<rparr>)"
    using fr1 by (auto simp: free_slots_absent_def list_all_iff dest: in_set_butlastD)
  ultimately show ?thesis using mk by simp
next
  case False
  let ?i = "last (available am)"
  have "?i \<in> set (available am)" using False by simp
  then have i: "?i < length (am_data am)" "am_data am ! ?i = defaultAccessors M"
    using fr by (auto simp: free_slots_absent_def list_all_iff)
  have mk: "AccessMatrix_make N M am = Some (?i, am\<lparr>available := butlast (available am)\<rparr>)"
    using False by (simp add: AccessMatrix_make_def Let_def)
  have "AccessMatrix_has ?i p (am\<lparr>available := butlast (available am)\<rparr>) = Some False"
    if "p < M" for p
    using that i
    by (simp add: AccessMatrix_has_def AccessMatrix_get_def defaultAccessors_def)
  moreover have "free_slots_absent M (am\<lparr>available := butlast (available am)\<rparr>)"
    using fr by (auto simp: free_slots_absent_def list_all_iff dest: in_set_butlastD)
  ultimately show ?thesis using mk by simp
qed

section \<open>The runs that respect the contract keep the invariant\<close>

lemma Model_inv_iff:
  "Model_inv M m \<longleftrightarrow>
     wf_Model M m \<and>
     (\<forall>T<M. consistent T m) \<and>
     (\<forall>T<M. set (owners (components m ! T)) \<subseteq> set (spawnedEntities m)) \<and>
     (\<forall>T<M. length (owners (components m ! T)) \<le> maxAccessor) \<and>
     free_slots_absent M (accessMatrix m) \<and>
     set (available (accessMatrix m)) \<inter> set (spawnedEntities m) = {} \<and>
     distinct (available (accessMatrix m))"
  by (auto simp: Model_inv_def list_all_iff)

lemma Model_inv_new: "Model_inv M (Model_new M)"
  by (simp add: Model_inv_iff wf_Model_iff consistent_iff store_slot_ok_iff Model_new_def
      free_slots_absent_def)

lemma append_store_ok:
  assumes ok: "store_slot_ok T sl ow"
    and e: "e < length sl" "T < length (sl ! e)" and abs: "sl ! e ! T = maxAccessor"
    and n: "length ow < maxAccessor"
  shows "store_slot_ok T (put e T (length ow) sl) (ow @ [e])"
proof -
  let ?n = "length ow"
  have A: "\<And>b. b < ?n \<Longrightarrow> ow ! b < length sl \<and> sl ! (ow ! b) ! T = b"
    and B: "\<And>x. x < length sl \<Longrightarrow>
        sl ! x ! T = maxAccessor \<or> (sl ! x ! T < ?n \<and> ow ! (sl ! x ! T) = x)"
    using ok by (auto simp: store_slot_ok_iff)
  have cell: "put e T ?n sl ! x ! T = (if x = e then ?n else sl ! x ! T)" for x
    using e by (simp add: nth_put)
  show ?thesis
    unfolding store_slot_ok_iff
  proof (intro conjI allI impI)
    fix b assume "b < length (ow @ [e])"
    then have b: "b \<le> ?n" by simp
    show "(ow @ [e]) ! b < length (put e T ?n sl)"
      using b A[of b] e by (cases "b = ?n") (simp_all add: nth_append)
    show "put e T ?n sl ! ((ow @ [e]) ! b) ! T = b"
    proof (cases "b = ?n")
      case True
      then show ?thesis by (simp add: cell)
    next
      case False
      then have bn: "b < ?n" using b by simp
      then have "ow ! b \<noteq> e" using A[of b] abs n by auto
      then show ?thesis using bn A[of b] by (simp add: cell nth_append)
    qed
  next
    fix x assume "x < length (put e T ?n sl)"
    then have x: "x < length sl" by simp
    show "put e T ?n sl ! x ! T = maxAccessor \<or>
        (put e T ?n sl ! x ! T < length (ow @ [e]) \<and>
         (ow @ [e]) ! (put e T ?n sl ! x ! T) = x)"
      using B[OF x] by (cases "x = e") (auto simp: cell nth_append)
  qed
qed

lemma insert_core_fields [simp]:
  "spawnedEntities (insert_core T e v m) = spawnedEntities m"
  "systems (insert_core T e v m) = systems m"
  "length (components (insert_core T e v m)) = length (components m)"
  "length (am_data (accessMatrix (insert_core T e v m))) = length (am_data (accessMatrix m))"
  "length (am_data (accessMatrix (insert_core T e v m)) ! x) = length (am_data (accessMatrix m) ! x)"
  "available (accessMatrix (insert_core T e v m)) = available (accessMatrix m)"
  by (simp_all add: insert_core_def Let_def)

lemma insert_core_other:
  assumes "T' \<noteq> T"
  shows "components (insert_core T e v m) ! T' = components m ! T'"
    and "am_data (accessMatrix (insert_core T e v m)) ! x ! T' = am_data (accessMatrix m) ! x ! T'"
  using assms by (simp_all add: insert_core_def Let_def nth_put_other)

lemma insert_core_same:
  assumes "T < length (components m)"
  shows "owners (components (insert_core T e v m) ! T) = owners (components m ! T) @ [e]"
    and "c_data (components (insert_core T e v m) ! T) = c_data (components m ! T) @ [v]"
  using assms by (simp_all add: insert_core_def Let_def)

lemma insert_core_slot_other:
  "x \<noteq> e \<Longrightarrow> am_data (accessMatrix (insert_core T e v m)) ! x = am_data (accessMatrix m) ! x"
  by (simp add: insert_core_def Let_def nth_put_neq)

lemma Model_inv_insert_core:
  assumes inv: "Model_inv M m" and T: "T < M" and sp: "e \<in> set (spawnedEntities m)"
    and abs: "hasAccess T e m = Some False"
    and n: "length (c_data (components m ! T)) < maxAccessor"
  shows "Model_inv M (insert_core T e v m)"
proof -
  let ?m1 = "insert_core T e v m"
  let ?sl = "am_data (accessMatrix m)"
  have wf: "wf_Model M m" using inv by (simp add: Model_inv_iff)
  have TT: "T < length (components m)" using wf T by (simp add: wf_Model_iff)
  have e: "e < length ?sl" "T < length (?sl ! e)" and a: "?sl ! e ! T = maxAccessor"
    using hasAccess_SomeD[OF abs] by auto
  have l: "length (c_data (components m ! T)) = length (owners (components m ! T))"
    using wf TT by (simp add: wf_Model_iff)
  have wf1: "wf_Model M ?m1"
  proof -
    have "length (c_data (components ?m1 ! T')) = length (owners (components ?m1 ! T'))"
      if "T' < length (components m)" for T'
      using that wf TT by (cases "T' = T") (simp_all add: insert_core_same insert_core_other wf_Model_iff)
    then show ?thesis using wf by (simp add: wf_Model_iff)
  qed
  have c1: "consistent T' ?m1" if "T' < M" for T'
  proof (cases "T' = T")
    case True
    have "store_slot_ok T (put e T (length (owners (components m ! T))) ?sl)
        (owners (components m ! T) @ [e])"
      using inv T e a n l by (intro append_store_ok) (simp_all add: Model_inv_iff consistent_iff)
    then show ?thesis
      using True TT l by (simp add: consistent_iff insert_core_def Let_def)
  next
    case False
    then show ?thesis
      using inv that by (simp add: Model_inv_iff consistent_iff store_slot_ok_iff insert_core_other)
  qed
  have c2: "set (owners (components ?m1 ! T')) \<subseteq> set (spawnedEntities ?m1)" if "T' < M" for T'
    using that inv sp TT by (cases "T' = T") (auto simp: insert_core_same insert_core_other Model_inv_iff)
  have c3: "length (owners (components ?m1 ! T')) \<le> maxAccessor" if "T' < M" for T'
    using that inv n l TT by (cases "T' = T") (auto simp: insert_core_same insert_core_other Model_inv_iff)
  have ne: "e \<notin> set (available (accessMatrix m))"
    using inv sp by (auto simp: Model_inv_iff)
  have c4: "free_slots_absent M (accessMatrix ?m1)"
    unfolding free_slots_absent_def list_all_iff
  proof
    fix i assume i: "i \<in> set (available (accessMatrix ?m1))"
    then have "i \<noteq> e" using ne by auto
    then show "i < length (am_data (accessMatrix ?m1)) \<and>
        am_data (accessMatrix ?m1) ! i = defaultAccessors M"
      using inv i by (simp add: Model_inv_iff free_slots_absent_def list_all_iff insert_core_slot_other)
  qed
  show ?thesis
    using wf1 c1 c2 c3 c4 inv by (simp add: Model_inv_iff)
qed

lemma Model_inv_systems [simp]:
  "Model_inv M (removeFromSystems x s m) = Model_inv M m"
  "Model_inv M (insertInSystems x s m) = Model_inv M m"
  "Model_inv M (m\<lparr>systems := ss\<rparr>) = Model_inv M m"
  by (simp_all add: Model_inv_def wf_Model_def consistent_def)

lemma slots_after_remove_slot_other:
  "x \<noteq> e \<Longrightarrow> x \<noteq> r \<Longrightarrow> slots_after_remove T e r a sl ! x = sl ! x"
  by (simp add: slots_after_remove_def nth_put_neq)

lemma set_swap_remove_subset: "set (take k (xs[a := last xs])) \<subseteq> set xs"
proof (cases "xs = []")
  case True
  then show ?thesis by simp
next
  case False
  have "set (take k (xs[a := last xs])) \<subseteq> set (xs[a := last xs])"
    by (rule set_take_subset)
  also have "\<dots> \<subseteq> insert (last xs) (set xs)"
    by (rule set_update_subset_insert)
  also have "\<dots> = set xs"
    using False by (simp add: insert_absorb)
  finally show ?thesis .
qed

lemma Model_inv_remove_core:
  assumes inv: "Model_inv M m" and T: "T < M" and sp: "e \<in> set (spawnedEntities m)"
    and own: "hasAccess T e m = Some True"
  shows "Model_inv M (remove_core T e m)"
proof -
  let ?m1 = "remove_core T e m"
  let ?sl = "am_data (accessMatrix m)"
  let ?ow = "owners (components m ! T)"
  have wf: "wf_Model M m" and ok: "consistent T m"
    using inv T by (simp_all add: Model_inv_iff)
  have TT: "T < length (components m)" using wf T by (simp add: wf_Model_iff)
  have e: "e < length ?sl" and a: "?sl ! e ! T \<noteq> maxAccessor"
    using hasAccess_SomeD[OF own] by auto
  have "?sl ! e ! T < length ?ow"
    using ok e a by (auto simp: consistent_iff store_slot_ok_iff)
  then have "?ow \<noteq> []" by auto
  then have "last ?ow \<in> set ?ow" by (rule last_in_set)
  moreover have "set ?ow \<subseteq> set (spawnedEntities m)"
    using inv T by (simp add: Model_inv_iff)
  ultimately have r: "last ?ow \<in> set (spawnedEntities m)" by blast
  have ow1: "owners (components ?m1 ! T) =
      take (length ?ow - 1) (?ow[?sl ! e ! T := last ?ow])"
    using TT by (simp add: remove_core_def Let_def)
  have c1: "consistent T' ?m1" if "T' < M" for T'
  proof (cases "T' = T")
    case True
    then show ?thesis using consistent_remove_core[OF wf T ok own] by simp
  next
    case False
    then show ?thesis using inv that by (simp add: consistent_remove_core_other Model_inv_iff)
  qed
  have c2: "set (owners (components ?m1 ! T')) \<subseteq> set (spawnedEntities ?m1)" if "T' < M" for T'
  proof (cases "T' = T")
    case True
    have "set (owners (components ?m1 ! T)) \<subseteq> set ?ow"
      unfolding ow1 by (rule set_swap_remove_subset)
    then show ?thesis using True inv T by (auto simp: Model_inv_iff)
  next
    case False
    then show ?thesis using inv that by (simp add: remove_core_other Model_inv_iff)
  qed
  have c3: "length (owners (components ?m1 ! T')) \<le> maxAccessor" if "T' < M" for T'
  proof (cases "T' = T")
    case True
    have "length ?ow \<le> maxAccessor" using inv T by (simp add: Model_inv_iff)
    then show ?thesis using True by (simp add: ow1)
  next
    case False
    then show ?thesis using inv that by (simp add: remove_core_other Model_inv_iff)
  qed
  have c4: "free_slots_absent M (accessMatrix ?m1)"
    unfolding free_slots_absent_def list_all_iff
  proof
    fix i assume i: "i \<in> set (available (accessMatrix ?m1))"
    then have "i \<noteq> e" "i \<noteq> last ?ow"
      using inv sp r by (auto simp: Model_inv_iff)
    then have "am_data (accessMatrix ?m1) ! i = ?sl ! i"
      by (simp add: remove_core_def Let_def slots_after_remove_slot_other)
    then show "i < length (am_data (accessMatrix ?m1)) \<and>
        am_data (accessMatrix ?m1) ! i = defaultAccessors M"
      using inv i by (simp add: Model_inv_iff free_slots_absent_def list_all_iff)
  qed
  show ?thesis
    using wf_remove_core[OF wf, of T e] c1 c2 c3 c4 inv by (simp add: Model_inv_iff)
qed

lemma Model_inv_remove:
  assumes inv: "Model_inv M m" and T: "T < M" and sp: "e \<in> set (spawnedEntities m)"
    and own: "hasAccess T e m = Some True"
  shows "\<exists>m'. Model_remove T e m = Some m' \<and> Model_inv M m'"
proof -
  have "wf_Model M m" and "consistent T m"
    using inv T by (simp_all add: Model_inv_iff)
  then have "Model_remove T e m = Some (removeFromSystems e {T} (remove_core T e m))"
    using T own by (intro Model_remove_defined)
  then show ?thesis
    using Model_inv_remove_core[OF inv T sp own] by simp
qed

lemma Model_inv_insert:
  assumes inv: "Model_inv M m" and T: "T < M" and sp: "e \<in> set (spawnedEntities m)"
    and abs: "hasAccess T e m = Some False"
    and n: "length (c_data (components m ! T)) < maxAccessor"
  shows "\<exists>m'. Model_insert M T e v m = Some m' \<and> Model_inv M m'"
proof -
  have wf: "wf_Model M m" using inv by (simp add: Model_inv_iff)
  have e: "e < length (am_data (accessMatrix m))" using wf sp by (simp add: wf_Model_iff)
  show ?thesis
    using Model_insert_eq[OF wf e T, of v] Model_inv_insert_core[OF inv T sp abs n, of v] by simp
qed

lemma Model_inv_createSystem:
  assumes inv: "Model_inv M m"
  shows "\<exists>m'. createSystem M Us hSys m = Some (hSys, m') \<and> Model_inv M m'"
proof -
  have wf: "wf_Model M m" using inv by (simp add: Model_inv_iff)
  obtain sys where "seedSystem M (spawnedEntities m) m
      \<lparr>signature = computeSignature_types Us, entities = []\<rparr> = Some sys"
    using seedSystem_eq[of m M "spawnedEntities m"
        "\<lparr>signature = computeSignature_types Us, entities = []\<rparr>"] wf
    by (auto simp: wf_Model_iff)
  then show ?thesis
    using inv by (simp add: createSystem_def)
qed

lemma AccessMatrix_make_inv:
  assumes fr: "free_slots_absent M am" and N: "0 < N" and d: "distinct (available am)"
  shows "\<exists>i am' k. AccessMatrix_make N M am = Some (i, am') \<and>
     am_data am' = am_data am @ replicate k (defaultAccessors M) \<and>
     i < length (am_data am') \<and>
     i \<notin> set (available am') \<and>
     set (available am') \<subseteq> set (available am) \<union> {length (am_data am)..<length (am_data am')} \<and>
     i \<in> set (available am) \<union> {length (am_data am)..<length (am_data am')} \<and>
     distinct (available am') \<and>
     free_slots_absent M am'"
proof (cases "available am = []")
  case True
  let ?b = "length (am_data am)"
  let ?am1 = "expand N M am"
  let ?am' = "?am1\<lparr>available := butlast (available ?am1)\<rparr>"
  have av: "available ?am1 = rev [?b..<?b + N]"
    using True by (simp add: expand_def fold_Cons_rev)
  have dat: "am_data ?am1 = am_data am @ replicate N (defaultAccessors M)"
    by (simp add: expand_def)
  have ne: "available ?am1 \<noteq> []" using av N by simp
  have la: "last (available ?am1) = ?b"
    using N by (simp add: av last_rev upt_conv_Cons)
  have bl: "butlast (available ?am1) = rev [Suc ?b..<?b + N]"
    using N by (simp add: av butlast_rev upt_conv_Cons)
  have fr1: "free_slots_absent M ?am1"
    by (auto simp: free_slots_absent_def av dat list_all_iff nth_append)
  have mk: "AccessMatrix_make N M am = Some (?b, ?am')"
    using True ne la by (simp add: AccessMatrix_make_def Let_def)
  have "free_slots_absent M ?am'"
    using fr1 by (auto simp: free_slots_absent_def list_all_iff dest: in_set_butlastD)
  then show ?thesis
    using mk dat N by (auto simp: bl intro!: exI[of _ N])
next
  case False
  let ?i = "last (available am)"
  let ?am' = "am\<lparr>available := butlast (available am)\<rparr>"
  have mem: "?i \<in> set (available am)" using False by simp
  then have i: "?i < length (am_data am)"
    using fr by (auto simp: free_slots_absent_def list_all_iff)
  have mk: "AccessMatrix_make N M am = Some (?i, ?am')"
    using False by (simp add: AccessMatrix_make_def Let_def)
  have "available am = butlast (available am) @ [?i]"
    using False by simp
  then have "distinct (butlast (available am) @ [?i])"
    using d by simp
  then have ni: "?i \<notin> set (butlast (available am))" by simp
  have "free_slots_absent M ?am'"
    using fr by (auto simp: free_slots_absent_def list_all_iff dest: in_set_butlastD)
  then show ?thesis
    using mk i ni mem d by (auto simp: distinct_butlast dest: in_set_butlastD intro!: exI[of _ 0])
qed

lemma store_slot_ok_grow:
  assumes "store_slot_ok T sl ow" and "T < M"
  shows "store_slot_ok T (sl @ replicate k (defaultAccessors M)) ow"
  using assms
  by (auto simp: store_slot_ok_iff nth_append defaultAccessors_def)

lemma Model_inv_createEntity:
  assumes inv: "Model_inv M m" and N: "0 < N"
  shows "\<exists>e m'. createEntity N M m = Some (e, m') \<and> Model_inv M m'"
proof -
  let ?am = "accessMatrix m"
  let ?sl = "am_data ?am"
  have wf: "wf_Model M m" using inv by (simp add: Model_inv_iff)
  obtain i am' k where mk: "AccessMatrix_make N M ?am = Some (i, am')"
    and dat: "am_data am' = ?sl @ replicate k (defaultAccessors M)"
    and i: "i < length (am_data am')" and ni: "i \<notin> set (available am')"
    and sub: "set (available am') \<subseteq> set (available ?am) \<union> {length ?sl..<length (am_data am')}"
    and di: "distinct (available am')" and fr: "free_slots_absent M am'"
    using AccessMatrix_make_inv[of M ?am N] inv N by (auto simp: Model_inv_iff)
  let ?m1 = "m\<lparr>accessMatrix := am', spawnedEntities := set_insert i (spawnedEntities m)\<rparr>"
  have ce: "createEntity N M m = Some (i, insertInSystems i {} ?m1)"
    using mk by (simp add: createEntity_def)
  have sp: "\<And>x. x \<in> set (spawnedEntities m) \<Longrightarrow> x < length ?sl"
    using wf by (simp add: wf_Model_iff)
  have sp': "\<forall>x\<in>set (spawnedEntities m). x < length ?sl + k"
    using sp by (simp add: trans_less_add1)
  have wf1: "wf_Model M ?m1"
    using wf i dat sp'
    by (auto simp: wf_Model_iff nth_append defaultAccessors_def)
  have c1: "consistent T ?m1" if "T < M" for T
    using inv that by (simp add: consistent_iff dat store_slot_ok_grow Model_inv_iff)
  have c2: "set (owners (components ?m1 ! T)) \<subseteq> set (spawnedEntities ?m1)" if "T < M" for T
    using inv that by (auto simp: Model_inv_iff)
  have c5: "set (available am') \<inter> set (spawnedEntities ?m1) = {}"
  proof -
    have "x \<notin> set (spawnedEntities m)" if "x \<in> set (available am')" for x
    proof -
      have "x \<in> set (available ?am) \<or> length ?sl \<le> x" using sub that by auto
      then show ?thesis using inv sp[of x] by (auto simp: Model_inv_iff)
    qed
    then show ?thesis using ni by auto
  qed
  have "Model_inv M ?m1"
    using wf1 c1 c2 c5 di fr inv by (simp add: Model_inv_iff)
  then show ?thesis using ce by simp
qed

lemma checkedRemove_all_absent:
  assumes "Model_inv M m" and "e \<in> set (spawnedEntities m)" and "\<forall>T\<in>set Ts. T < M"
  shows "\<exists>m1. checkedRemove_all Ts e m = Some m1 \<and> Model_inv M m1 \<and>
     spawnedEntities m1 = spawnedEntities m \<and>
     available (accessMatrix m1) = available (accessMatrix m) \<and>
     (\<forall>T. T \<in> set Ts \<or> am_data (accessMatrix m) ! e ! T = maxAccessor \<longrightarrow>
          am_data (accessMatrix m1) ! e ! T = maxAccessor)"
  using assms
proof (induction Ts arbitrary: m)
  case Nil
  then show ?case by simp
next
  case (Cons T Ts)
  let ?sl = "am_data (accessMatrix m)"
  have wf: "wf_Model M m" using Cons.prems(1) by (simp add: Model_inv_iff)
  have T: "T < M" using Cons.prems(3) by simp
  have e: "e < length ?sl" using wf Cons.prems(2) by (simp add: wf_Model_iff)
  have l: "T < length (?sl ! e)" using wf e T by (simp add: wf_Model_iff)
  obtain m0 where 1: "checkedRemove T e m = Some m0" and 2: "Model_inv M m0"
    and 3: "spawnedEntities m0 = spawnedEntities m"
    and 4: "available (accessMatrix m0) = available (accessMatrix m)"
    and 5: "am_data (accessMatrix m0) ! e ! T = maxAccessor"
    and 6: "\<And>T'. T' \<noteq> T \<Longrightarrow> am_data (accessMatrix m0) ! e ! T' = ?sl ! e ! T'"
  proof (cases "?sl ! e ! T = maxAccessor")
    case True
    then have "checkedRemove T e m = Some m"
      using e l by (simp add: checkedRemove_def hasAccess_eq)
    then show ?thesis using that[of m] True Cons.prems(1) by simp
  next
    case False
    then have own: "hasAccess T e m = Some True"
      using e l by (simp add: hasAccess_eq)
    have ok: "consistent T m" using Cons.prems(1) T by (simp add: Model_inv_iff)
    let ?m0 = "removeFromSystems e {T} (remove_core T e m)"
    have "checkedRemove T e m = Some ?m0"
      using own Model_remove_defined[OF wf T ok own] by (simp add: checkedRemove_def)
    moreover have "Model_inv M ?m0"
      using Model_inv_remove_core[OF Cons.prems(1) T Cons.prems(2) own] by simp
    moreover have "am_data (accessMatrix ?m0) ! e ! T = maxAccessor"
      using e l by (simp add: remove_core_def Let_def slots_after_remove_self)
    moreover have "am_data (accessMatrix ?m0) ! e ! T' = ?sl ! e ! T'" if "T' \<noteq> T" for T'
      using that by (simp add: remove_core_other)
    ultimately show ?thesis using that[of ?m0] by simp
  qed
  obtain m1 where a: "checkedRemove_all Ts e m0 = Some m1" and b: "Model_inv M m1"
    and c: "spawnedEntities m1 = spawnedEntities m0"
    and d: "available (accessMatrix m1) = available (accessMatrix m0)"
    and f: "\<And>T'. T' \<in> set Ts \<or> am_data (accessMatrix m0) ! e ! T' = maxAccessor \<Longrightarrow>
          am_data (accessMatrix m1) ! e ! T' = maxAccessor"
    using Cons.IH[OF 2] Cons.prems(2,3) 3 by auto
  have "am_data (accessMatrix m1) ! e ! T' = maxAccessor"
    if "T' \<in> set (T # Ts) \<or> ?sl ! e ! T' = maxAccessor" for T'
    using that 5 6[of T'] f[of T'] by (cases "T' = T") auto
  then show ?case
    using 1 a b c d 3 4 by simp
qed

lemma Model_inv_removeEntity:
  assumes inv: "Model_inv M m" and sp: "e \<in> set (spawnedEntities m)"
  shows "\<exists>m'. removeEntity M e m = Some m' \<and> Model_inv M m'"
proof -
  obtain m1 where 1: "checkedRemove_all [0..<M] e m = Some m1" and inv1: "Model_inv M m1"
    and 3: "spawnedEntities m1 = spawnedEntities m"
    and 5: "\<And>T. T < M \<Longrightarrow> am_data (accessMatrix m1) ! e ! T = maxAccessor"
    using checkedRemove_all_absent[OF inv sp, of "[0..<M]"] by auto
  let ?sl = "am_data (accessMatrix m1)"
  have wf: "wf_Model M m1" using inv1 by (simp add: Model_inv_iff)
  have sp1: "e \<in> set (spawnedEntities m1)" using sp 3 by simp
  then have e: "e < length ?sl" using wf by (simp add: wf_Model_iff)
  then have "length (?sl ! e) = M" using wf by (simp add: wf_Model_iff)
  then have cell: "?sl ! e = defaultAccessors M"
    using 5 by (intro nth_equalityI) (simp_all add: defaultAccessors_def)
  then have same: "?sl[e := defaultAccessors M] = ?sl"
    by (metis list_update_id)
  let ?am = "(accessMatrix m1)\<lparr>am_data := ?sl[e := defaultAccessors M],
      available := available (accessMatrix m1) @ [e]\<rparr>"
  let ?m2 = "m1\<lparr>accessMatrix := ?am, spawnedEntities := set_erase e (spawnedEntities m1)\<rparr>"
  have re: "removeEntity M e m = Some (removeFromSystems e {} ?m2)"
    using 1 e by (simp add: removeEntity_def AccessMatrix_free_def)
  have wf2: "wf_Model M ?m2"
    using wf by (auto simp: wf_Model_iff same)
  have c1: "consistent T ?m2" if "T < M" for T
    using inv1 that by (simp add: consistent_iff same Model_inv_iff)
  have c2: "set (owners (components ?m2 ! T)) \<subseteq> set (spawnedEntities ?m2)" if "T < M" for T
  proof -
    let ?ow = "owners (components m1 ! T)"
    have ok: "store_slot_ok T ?sl ?ow" and len: "length ?ow \<le> maxAccessor"
      and sub: "set ?ow \<subseteq> set (spawnedEntities m1)"
      using inv1 that by (simp_all add: Model_inv_iff consistent_iff)
    have "e \<notin> set ?ow"
    proof
      assume "e \<in> set ?ow"
      then obtain a where a: "a < length ?ow" "?ow ! a = e"
        by (auto simp: in_set_conv_nth)
      then have "?sl ! e ! T = a" using ok by (auto simp: store_slot_ok_iff)
      then show False using 5[OF that] a(1) len by simp
    qed
    then show ?thesis using sub by auto
  qed
  have c3: "length (owners (components ?m2 ! T)) \<le> maxAccessor" if "T < M" for T
    using inv1 that by (simp add: Model_inv_iff)
  have ne: "e \<notin> set (available (accessMatrix m1))"
    using inv1 sp1 by (auto simp: Model_inv_iff)
  have c4: "free_slots_absent M ?am"
    using inv1 e cell by (simp add: Model_inv_iff free_slots_absent_def same)
  have c5: "set (available ?am) \<inter> set (spawnedEntities ?m2) = {}"
    using inv1 by (auto simp: Model_inv_iff)
  have c6: "distinct (available ?am)"
    using inv1 ne by (simp add: Model_inv_iff)
  have "Model_inv M ?m2"
    using wf2 c1 c2 c3 c4 c5 c6 by (simp add: Model_inv_iff)
  then show ?thesis using re by simp
qed

lemma Model_inv_apply_op:
  assumes "Model_inv M m" and "op_ok N M op m"
  shows "\<exists>m'. apply_op N M op m = Some m' \<and> Model_inv M m'"
proof (cases op)
  case OpCreateEntity
  then show ?thesis using Model_inv_createEntity[of M m N] assms by auto
next
  case (OpRemoveEntity e)
  then show ?thesis using Model_inv_removeEntity[of M m e] assms by auto
next
  case (OpInsert T e v)
  then show ?thesis using Model_inv_insert[of M m T e v] assms by auto
next
  case (OpRemove T e)
  then show ?thesis using Model_inv_remove[of M m T e] assms by auto
next
  case (OpCreateSystem Us hSys)
  then show ?thesis using Model_inv_createSystem[of M m Us hSys] assms by auto
qed

lemma Model_inv_run:
  assumes "Model_inv M m" and "contract N M ops m"
  shows "\<exists>m'. run N M ops m = Some m' \<and> Model_inv M m'"
  using assms
proof (induction ops arbitrary: m)
  case Nil
  then show ?case by simp
next
  case (Cons op ops)
  obtain m1 where 1: "apply_op N M op m = Some m1" and 2: "Model_inv M m1"
    using Model_inv_apply_op[of M m N op] Cons.prems by auto
  then have "contract N M ops m1" using Cons.prems(2) by simp
  then show ?case using Cons.IH[OF 2] 1 by simp
qed

section \<open>Creation and insertion keep the working sets of the systems\<close>

lemma systems_synced_iff:
  assumes "wf_Model M m"
  shows "systems_synced M m \<longleftrightarrow>
     (\<forall>(h, sys) \<in> set (systems m).
        set (entities sys) = {e \<in> set (spawnedEntities m). signature sys \<subseteq> sig_of M e m})"
  by (simp add: systems_synced_def list_all_iff set_matching[OF assms] sig_of_def)

lemma subset_test: "s \<inter> S = S \<longleftrightarrow> S \<subseteq> s"
  by auto

lemma systems_synced_insertInSystems:
  assumes wf: "wf_Model M m" and wf0: "wf_Model M m0" and sy: "systems_synced M m0"
    and sys: "systems m = systems m0"
    and e: "e \<in> set (spawnedEntities m)"
    and sp: "set (spawnedEntities m) = insert e (set (spawnedEntities m0))"
    and old: "\<And>x. x \<in> set (spawnedEntities m0) \<Longrightarrow> x \<noteq> e \<Longrightarrow> sig_of M x m = sig_of M x m0"
    and grow: "e \<in> set (spawnedEntities m0) \<Longrightarrow> sig_of M e m0 \<subseteq> sig_of M e m"
  shows "systems_synced M (insertInSystems e (sig_of M e m) m)"
proof -
  let ?m' = "insertInSystems e (sig_of M e m) m"
  have wf': "wf_Model M ?m'" using wf by simp
  have sig': "sig_of M x ?m' = sig_of M x m" for x
    by (simp add: sig_of_def)
  have "set (entities sys') = {x \<in> set (spawnedEntities ?m'). signature sys' \<subseteq> sig_of M x ?m'}"
    if mem: "(h, sys') \<in> set (systems ?m')" for h sys'
  proof -
    obtain sys where in0: "(h, sys) \<in> set (systems m0)"
      and s': "sys' = (if sig_of M e m \<inter> signature sys = signature sys
                      then System_insert e sys else sys)"
      using mem sys by (auto simp: insertInSystems_def)
    have ent0: "set (entities sys) =
        {x \<in> set (spawnedEntities m0). signature sys \<subseteq> sig_of M x m0}"
      using sy[unfolded systems_synced_iff[OF wf0]] in0 by blast
    have sg: "signature sys' = signature sys"
      by (simp add: s' System_insert_def)
    have ent: "set (entities sys') =
        set (entities sys) \<union> (if signature sys \<subseteq> sig_of M e m then {e} else {})"
      by (auto simp: s' System_insert_def subset_test)
    have spm: "spawnedEntities ?m' = spawnedEntities m"
      by simp
    show ?thesis
      unfolding ent sg ent0 sig' spm
    proof (rule set_eqI)
      fix x
      show "x \<in> {x \<in> set (spawnedEntities m0). signature sys \<subseteq> sig_of M x m0} \<union>
              (if signature sys \<subseteq> sig_of M e m then {e} else {}) \<longleftrightarrow>
            x \<in> {x \<in> set (spawnedEntities m). signature sys \<subseteq> sig_of M x m}"
      proof (cases "x = e")
        case True
        then show ?thesis using e grow by auto
      next
        case False
        then show ?thesis using sp old[of x] by auto
      qed
    qed
  qed
  then show ?thesis
    unfolding systems_synced_iff[OF wf'] by auto
qed

lemma wf_insert_core:
  assumes wf: "wf_Model M m" and T: "T < M"
  shows "wf_Model M (insert_core T e v m)"
proof -
  have TT: "T < length (components m)" using wf T by (simp add: wf_Model_iff)
  have "length (c_data (components (insert_core T e v m) ! T')) =
        length (owners (components (insert_core T e v m) ! T'))"
    if "T' < length (components m)" for T'
    using that wf TT
    by (cases "T' = T") (simp_all add: insert_core_same insert_core_other wf_Model_iff)
  then show ?thesis using wf by (simp add: wf_Model_iff)
qed

lemma systems_synced_insert:
  assumes wf: "wf_Model M m" and sy: "systems_synced M m" and T: "T < M"
    and sp: "e \<in> set (spawnedEntities m)"
    and n: "length (c_data (components m ! T)) < maxAccessor"
  shows "\<exists>m'. Model_insert M T e v m = Some m' \<and> systems_synced M m'"
proof -
  let ?m1 = "insert_core T e v m"
  have e: "e < length (am_data (accessMatrix m))" using wf sp by (simp add: wf_Model_iff)
  have l: "T < length (am_data (accessMatrix m) ! e)" using wf e T by (simp add: wf_Model_iff)
  have eq: "Model_insert M T e v m = Some (insertInSystems e (sig_of M e ?m1) ?m1)"
    using Model_insert_eq[OF wf e T, of v] by (simp add: sig_of_def)
  have old: "sig_of M x ?m1 = sig_of M x m" if "x \<noteq> e" for x
    using that by (simp add: sig_of_def insert_core_slot_other)
  have grow: "sig_of M e m \<subseteq> sig_of M e ?m1"
    using e l n by (auto simp: sig_of_def insert_core_cell)
  have "systems_synced M (insertInSystems e (sig_of M e ?m1) ?m1)"
    using wf_insert_core[OF wf T] wf sy sp old grow
    by (intro systems_synced_insertInSystems[where ?m0.0 = m]) (simp_all add: insert_absorb)
  then show ?thesis using eq by simp
qed

lemma systems_synced_createEntity:
  assumes inv: "Model_inv M m" and sy: "systems_synced M m" and N: "0 < N"
  shows "\<exists>e m'. createEntity N M m = Some (e, m') \<and> systems_synced M m'"
proof -
  let ?am = "accessMatrix m"
  let ?sl = "am_data ?am"
  have wf: "wf_Model M m" using inv by (simp add: Model_inv_iff)
  obtain i am' k where mk: "AccessMatrix_make N M ?am = Some (i, am')"
    and dat: "am_data am' = ?sl @ replicate k (defaultAccessors M)"
    and i: "i < length (am_data am')"
    and mem: "i \<in> set (available ?am) \<union> {length ?sl..<length (am_data am')}"
    using AccessMatrix_make_inv[of M ?am N] inv N by (auto simp: Model_inv_iff)
  have absent: "\<forall>T<M. AccessMatrix_has i T am' = Some False"
    using AccessMatrix_make_absent[of M ?am N] inv N mk by (auto simp: Model_inv_iff)
  let ?m1 = "m\<lparr>accessMatrix := am', spawnedEntities := set_insert i (spawnedEntities m)\<rparr>"
  have ce: "createEntity N M m = Some (i, insertInSystems i {} ?m1)"
    using mk by (simp add: createEntity_def)
  have sp: "\<And>x. x \<in> set (spawnedEntities m) \<Longrightarrow> x < length ?sl"
    using wf by (simp add: wf_Model_iff)
  have sp': "\<forall>x\<in>set (spawnedEntities m). x < length ?sl + k"
    using sp by (simp add: trans_less_add1)
  have wf1: "wf_Model M ?m1"
    using wf i dat sp' by (auto simp: wf_Model_iff nth_append defaultAccessors_def)
  have s0: "sig_of M i ?m1 = {}"
    using absent by (auto simp: sig_of_def AccessMatrix_has_def AccessMatrix_get_def split: if_splits)
  have ni: "i \<notin> set (spawnedEntities m)"
    using mem inv sp[of i] dat by (auto simp: Model_inv_iff)
  have old: "sig_of M x ?m1 = sig_of M x m" if "x \<in> set (spawnedEntities m)" for x
    using sp[OF that] by (simp add: sig_of_def dat nth_append)
  have "systems_synced M (insertInSystems i (sig_of M i ?m1) ?m1)"
    using wf1 wf sy old ni
    by (intro systems_synced_insertInSystems[where ?m0.0 = m]) simp_all
  then show ?thesis using ce s0 by simp
qed

lemma set_AList_update: "set (AList.update k v al) \<subseteq> insert (k, v) (set al)"
  by (induction al) auto

lemma systems_synced_createSystem:
  assumes wf: "wf_Model M m" and sy: "systems_synced M m"
  shows "\<exists>m'. createSystem M Us hSys m = Some (hSys, m') \<and> systems_synced M m'"
proof -
  let ?tmp = "\<lparr>signature = computeSignature_types Us, entities = []\<rparr>"
  obtain sys where 1: "seedSystem M (spawnedEntities m) m ?tmp = Some sys"
    and 2: "signature sys = signature ?tmp"
    and 3: "set (entities sys) = set (entities ?tmp) \<union>
       {e \<in> set (spawnedEntities m). signature ?tmp \<subseteq>
          {T. T < M \<and> am_data (accessMatrix m) ! e ! T \<noteq> maxAccessor}}"
    using seedSystem_eq[of m M "spawnedEntities m" ?tmp] wf by (auto simp: wf_Model_iff)
  let ?m' = "m\<lparr>systems := AList.update hSys sys (systems m)\<rparr>"
  have wf': "wf_Model M ?m'" using wf by (simp add: wf_Model_def)
  have new: "set (entities sys) =
      {e \<in> set (spawnedEntities m). signature sys \<subseteq> sig_of M e m}"
    using 2 3 by (simp add: sig_of_def)
  have "set (entities s') = {e \<in> set (spawnedEntities ?m'). signature s' \<subseteq> sig_of M e ?m'}"
    if mem: "(h, s') \<in> set (systems ?m')" for h s'
  proof -
    have "(h, s') = (hSys, sys) \<or> (h, s') \<in> set (systems m)"
      using mem set_AList_update[of hSys sys "systems m"] by auto
    moreover have "sig_of M e ?m' = sig_of M e m" for e
      by (simp add: sig_of_def)
    moreover have "spawnedEntities ?m' = spawnedEntities m"
      by simp
    ultimately show ?thesis
      using new sy[unfolded systems_synced_iff[OF wf]] by fastforce
  qed
  then have "systems_synced M ?m'"
    unfolding systems_synced_iff[OF wf'] by auto
  then show ?thesis using 1 by (simp add: createSystem_def)
qed

lemma systems_synced_apply_op:
  assumes inv: "Model_inv M m" and sy: "systems_synced M m"
    and ok: "op_ok N M op m" and nr: "no_removal op"
  shows "\<exists>m'. apply_op N M op m = Some m' \<and> Model_inv M m' \<and> systems_synced M m'"
proof -
  have wf: "wf_Model M m" using inv by (simp add: Model_inv_iff)
  obtain m' where 1: "apply_op N M op m = Some m'" and 2: "Model_inv M m'"
    using Model_inv_apply_op[OF inv ok] by auto
  have "\<exists>m''. apply_op N M op m = Some m'' \<and> systems_synced M m''"
  proof (cases op)
    case OpCreateEntity
    then show ?thesis using systems_synced_createEntity[OF inv sy, of N] ok by auto
  next
    case (OpInsert T e v)
    then show ?thesis using systems_synced_insert[OF wf sy, of T e v] ok by auto
  next
    case (OpCreateSystem Us hSys)
    then show ?thesis using systems_synced_createSystem[OF wf sy, of Us hSys] by auto
  next
    case (OpRemoveEntity e)
    then show ?thesis using nr by simp
  next
    case (OpRemove T e)
    then show ?thesis using nr by simp
  qed
  then show ?thesis using 1 2 by auto
qed

lemma systems_synced_run:
  assumes "Model_inv M m" and "systems_synced M m" and "contract N M ops m"
    and "list_all no_removal ops"
  shows "\<exists>m'. run N M ops m = Some m' \<and> Model_inv M m' \<and> systems_synced M m'"
  using assms
proof (induction ops arbitrary: m)
  case Nil
  then show ?case by simp
next
  case (Cons op ops)
  obtain m1 where 1: "apply_op N M op m = Some m1" and 2: "Model_inv M m1"
    and 3: "systems_synced M m1"
    using systems_synced_apply_op[of M m N op] Cons.prems by auto
  then have "contract N M ops m1" using Cons.prems(3) by simp
  then show ?case using Cons.IH[OF 2 3] 1 Cons.prems(4) by simp
qed

lemma systems_synced_new: "systems_synced M (Model_new M)"
  by (simp add: systems_synced_def Model_new_def)

text \<open>From a default-constructed Model: a run that respects the contract returns and ends in
  a state with the invariant, which holds what the theorems below assume; and when the run
  removes nothing, every system's working set is the set of the matching entities.\<close>

lemma Model_invD:
  assumes "Model_inv M m"
  shows "wf_Model M m" and "\<forall>T<M. consistent T m" and "free_slots_absent M (accessMatrix m)"
  using assms by (simp_all add: Model_inv_iff)

lemma run_from_new_inv:
  assumes "contract N M ops (Model_new M)"
  shows "\<exists>m. run N M ops (Model_new M) = Some m \<and> Model_inv M m"
  using Model_inv_run[OF Model_inv_new assms] .

lemma run_from_new_synced:
  assumes "contract N M ops (Model_new M)" and "list_all no_removal ops"
  shows "\<exists>m. run N M ops (Model_new M) = Some m \<and> systems_synced M m"
  using systems_synced_run[OF Model_inv_new systems_synced_new assms] by blast

section \<open>System: set-semantics membership edits\<close>

text \<open>
  Claim C9. \<^verbatim>\<open>System::insert(e)\<close> and \<^verbatim>\<open>System::remove(e)\<close> are idempotent: a second call
  with the same entity leaves the system as the first call left it, and neither call
  changes whether any other entity is in the working set.
\<close>

theorem System_insert_remove_idempotent:
  "System_insert e (System_insert e sys) = System_insert e sys \<and>
   System_remove e (System_remove e sys) = System_remove e sys \<and>
   (\<forall>e'. e' \<noteq> e \<longrightarrow>
      (e' \<in> set (entities (System_insert e sys)) \<longleftrightarrow> e' \<in> set (entities sys)) \<and>
      (e' \<in> set (entities (System_remove e sys)) \<longleftrightarrow> e' \<in> set (entities sys)))"
  by (auto simp: System_insert_def System_remove_def set_insert_def set_erase_def
      set_insort_key)

theorem System_insert_remove_idempotent_witness:
  "System_insert 3 (System_insert 3 \<lparr>signature = {0}, entities = [1, 4]\<rparr>) =
     \<lparr>signature = {0}, entities = [1, 3, 4]\<rparr> \<and>
   System_remove 4 (System_remove 4 \<lparr>signature = {0}, entities = [1, 4]\<rparr>) =
     \<lparr>signature = {0}, entities = [1]\<rparr> \<and>
   1 \<in> set (entities (System_insert 3 \<lparr>signature = {0}, entities = [1, 4]\<rparr>)) \<and>
   1 \<in> set (entities (System_remove 4 \<lparr>signature = {0}, entities = [1, 4]\<rparr>))"
  using System_insert_remove_idempotent [of 3 "\<lparr>signature = {0}, entities = [1, 4]\<rparr>"]
    System_insert_remove_idempotent [of 4 "\<lparr>signature = {0}, entities = [1, 4]\<rparr>"]
  by (simp add: System_insert_def System_remove_def set_insert_def set_erase_def)

section \<open>Model: removing a system\<close>

text \<open>
  Claim C10. \<^verbatim>\<open>removeSystem(hSys)\<close> with a handle that is not a key of \<^verbatim>\<open>systems_\<close> (a handle
  that was removed before, for one) returns the Model as it was: \<^verbatim>\<open>std::map::erase\<close> of an
  absent key erases nothing.
\<close>

theorem removeSystem_unknown_handle:
  "hSys \<notin> fst ` set (systems m) \<Longrightarrow> removeSystem hSys m = m"
  by (simp add: removeSystem_def)

theorem removeSystem_unknown_handle_witness:
  "(7::nat) \<notin> fst ` set (systems (removeSystem 7 ((Model_new 1 :: nat Model)
       \<lparr>systems := [(7, \<lparr>signature = {0}, entities = []\<rparr>)]\<rparr>))) \<and>
   removeSystem 7 (removeSystem 7 ((Model_new 1 :: nat Model)
       \<lparr>systems := [(7, \<lparr>signature = {0}, entities = []\<rparr>)]\<rparr>)) =
   removeSystem 7 ((Model_new 1 :: nat Model)
       \<lparr>systems := [(7, \<lparr>signature = {0}, entities = []\<rparr>)]\<rparr>)"
proof -
  have h: "(7::nat) \<notin> fst ` set (systems (removeSystem 7 ((Model_new 1 :: nat Model)
       \<lparr>systems := [(7, \<lparr>signature = {0}, entities = []\<rparr>)]\<rparr>)))"
    by (simp add: removeSystem_def)
  show ?thesis
    using h removeSystem_unknown_handle [OF h] by simp
qed

section \<open>Component: swap-removal\<close>

text \<open>
  Claim C5, as the code has it. In a store whose two vectors are parallel, \<^verbatim>\<open>remove(a)\<close>
  at a valid offset \<open>a\<close> returns the owner of the last element; both vectors shrink by one;
  offset \<open>a\<close>, when it is not the last one, now holds the value and the owner of the last
  element (so the returned entity owns offset \<open>a\<close>), and every other remaining offset is
  untouched. When \<open>a\<close> was the last offset the returned entity is the removed element's own
  owner; the converse needs the owners to be pairwise distinct.
\<close>

theorem Component_remove_swap:
  assumes "length (c_data c) = length (owners c)" and "a < length (owners c)"
  shows "\<exists>c'. Component_remove a c = Some (last (owners c), c') \<and>
     length (c_data c') = length (c_data c) - 1 \<and>
     length (owners c') = length (owners c) - 1 \<and>
     (\<forall>i < length (owners c) - 1.
        c_data c' ! i = (if i = a then last (c_data c) else c_data c ! i) \<and>
        owners c' ! i = (if i = a then last (owners c) else owners c ! i)) \<and>
     (a = length (owners c) - 1 \<longrightarrow> last (owners c) = owners c ! a) \<and>
     (distinct (owners c) \<longrightarrow>
        (last (owners c) = owners c ! a \<longleftrightarrow> a = length (owners c) - 1))"
proof -
  have ne: "owners c \<noteq> []"
    using assms by auto
  have l: "last (owners c) = owners c ! (length (owners c) - 1)"
    using ne by (rule last_conv_nth)
  have d: "distinct (owners c) \<Longrightarrow> last (owners c) = owners c ! a \<Longrightarrow>
      a = length (owners c) - 1"
    using assms l by (simp add: nth_eq_iff_index_eq)
  show ?thesis
    using assms l d by (auto simp: Component_remove_def Let_def)
qed

theorem Component_remove_swap_witness:
  "Component_remove 0 \<lparr>c_data = [10, 20, 30 :: nat], owners = [4, 5, 6]\<rparr> =
     Some (6, \<lparr>c_data = [30, 20], owners = [6, 5]\<rparr>) \<and>
   Component_remove 2 \<lparr>c_data = [10, 20, 30 :: nat], owners = [4, 5, 6]\<rparr> =
     Some (6, \<lparr>c_data = [10, 20], owners = [4, 5]\<rparr>) \<and>
   distinct (owners \<lparr>c_data = [10, 20, 30 :: nat], owners = [4, 5, 6]\<rparr>) \<and>
   last (owners \<lparr>c_data = [10, 20, 30 :: nat], owners = [4, 5, 6]\<rparr>) \<noteq>
     owners \<lparr>c_data = [10, 20, 30 :: nat], owners = [4, 5, 6]\<rparr> ! 0"
  using Component_remove_swap [of "\<lparr>c_data = [10, 20, 30 :: nat], owners = [4, 5, 6]\<rparr>" 0]
    Component_remove_swap [of "\<lparr>c_data = [10, 20, 30 :: nat], owners = [4, 5, 6]\<rparr>" 2]
  by (simp add: Component_remove_def)

text \<open>
  The store after \<^verbatim>\<open>insert(5, 1); insert(5, 2)\<close>: \<^verbatim>\<open>remove(0)\<close> returns entity 5, the removed
  element's own owner, although offset 0 is not the last offset.
\<close>

theorem Component_remove_owner_iff_counterexample:
  "Component_remove 0 (snd (Component_insert 5 (2::nat)
       (snd (Component_insert 5 1 \<lparr>c_data = [], owners = []\<rparr>)))) =
     Some (5, \<lparr>c_data = [2], owners = [5]\<rparr>) \<and>
   owners (snd (Component_insert 5 (2::nat)
       (snd (Component_insert 5 1 \<lparr>c_data = [], owners = []\<rparr>)))) ! 0 = 5 \<and>
   (0::nat) \<noteq> length (owners (snd (Component_insert 5 (2::nat)
       (snd (Component_insert 5 1 \<lparr>c_data = [], owners = []\<rparr>))))) - 1"
  by (simp add: Component_remove_def Component_insert_def)

section \<open>Model: component round trip and swap-removal\<close>

lemmas ev_ex1 = eval_defs upt_0_2 replicate_2 below_maxAccessor ex1_def

text \<open>The state \<open>ex1\<close> is the one a default-constructed Model reaches by the calls below.\<close>

lemma ex1_reached:
  "run 2 2 [OpCreateEntity, OpCreateEntity, OpInsert 0 0 10, OpInsert 0 1 11, OpInsert 1 1 20,
      OpCreateSystem [0] 100] (Model_new 2) = Some ex1"
  by (simp add: ev_ex1)

text \<open>
  Claim C4. For a spawned entity \<open>e\<close> of a well-formed Model and a declared component type
  \<open>T\<close>, \<^verbatim>\<open>insert<T>(e, v)\<close> returns, and \<^verbatim>\<open>access<T>(e)\<close> on the Model it leaves returns
  \<open>v\<close>.
\<close>

theorem Model_insert_access:
  assumes "wf_Model M m" and "e \<in> set (spawnedEntities m)" and "T < M"
  shows "\<exists>m'. Model_insert M T e v m = Some m' \<and> Model_access T e m' = Some v"
proof -
  have e: "e < length (am_data (accessMatrix m))"
    using assms by (simp add: wf_Model_iff)
  have TT: "T < length (components m)" and l: "length (am_data (accessMatrix m) ! e) = M"
    using assms e by (simp_all add: wf_Model_iff)
  have "Model_access T e (insert_core T e v m) = Some v"
    using e TT l assms(3)
    by (simp add: Model_access_def getAccess_def AccessMatrix_get_def getComponent_def
        Component_access_def insert_core_def Let_def nth_put)
  then show ?thesis
    using Model_insert_eq[OF assms(1) e assms(3)] by simp
qed

theorem Model_insert_access_witness:
  "wf_Model 2 ex1 \<and> 0 \<in> set (spawnedEntities ex1) \<and>
   (\<exists>m'. Model_insert 2 1 0 42 ex1 = Some m' \<and> Model_access 1 0 m' = Some 42)"
proof -
  have h1: "wf_Model 2 ex1" by (simp add: ev_ex1)
  have h2: "0 \<in> set (spawnedEntities ex1)" by (simp add: ev_ex1)
  have h3: "(1::nat) < 2" by simp
  show ?thesis
    using h1 h2 Model_insert_access[OF h1 h2 h3, of 42] by simp
qed

text \<open>
  Claim C3. In a well-formed Model whose store of type \<open>T\<close> agrees with the cells (every
  owner's accessor is its offset, so the offsets of the owning entities are pairwise
  distinct), \<^verbatim>\<open>remove<T>(e)\<close> on an entity that owns \<open>T\<close> returns, and every other entity
  \<open>e'\<close> that owns \<open>T\<close> reads through \<^verbatim>\<open>access<T>(e')\<close> the value it read before: the accessor
  of the relocated entity is patched to its new offset.
\<close>

theorem Model_remove_keeps_others:
  assumes wf: "wf_Model M m" and T: "T < M" and ok: "consistent T m"
    and own: "hasAccess T e m = Some True" and own': "hasAccess T e' m = Some True"
    and ne: "e' \<noteq> e"
  shows "\<exists>m' v. Model_remove T e m = Some m' \<and> Model_access T e' m = Some v \<and>
      Model_access T e' m' = Some v"
proof -
  let ?sl = "am_data (accessMatrix m)"
  let ?c = "components m ! T"
  let ?ow = "owners ?c"
  let ?d = "c_data ?c"
  let ?n = "length ?ow"
  let ?a = "?sl ! e ! T"
  let ?b = "?sl ! e' ! T"
  let ?r = "last ?ow"
  let ?m1 = "remove_core T e m"
  have e: "e < length ?sl" "T < length (?sl ! e)" and a: "?a \<noteq> maxAccessor"
    using hasAccess_SomeD[OF own] by auto
  have e': "e' < length ?sl" "T < length (?sl ! e')" and b: "?b \<noteq> maxAccessor"
    using hasAccess_SomeD[OF own'] by auto
  have TT: "T < length (components m)"
    using wf T by (simp add: wf_Model_iff)
  have l: "length ?d = ?n"
    using wf TT by (simp add: wf_Model_iff)
  have A: "\<And>x. x < ?n \<Longrightarrow> ?ow ! x < length ?sl \<and> ?sl ! (?ow ! x) ! T = x"
    and B: "\<And>x. x < length ?sl \<Longrightarrow> ?sl ! x ! T = maxAccessor \<or> (?sl ! x ! T < ?n \<and> ?ow ! (?sl ! x ! T) = x)"
    using ok by (auto simp: consistent_iff store_slot_ok_iff)
  have an: "?a < ?n" and oa: "?ow ! ?a = e"
    using B[OF e(1)] a by auto
  have bn: "?b < ?n" and ob: "?ow ! ?b = e'"
    using B[OF e'(1)] b by auto
  have ab: "?a \<noteq> ?b"
    using oa ob ne by auto
  have "?ow \<noteq> []" using an by auto
  then have r: "?r = ?ow ! (?n - 1)" by (rule last_conv_nth)
  have "?d \<noteq> []" using l an by auto
  then have ld: "last ?d = ?d ! (?n - 1)" using l by (simp add: last_conv_nth)
  have rn: "?r < length ?sl" and rT: "?sl ! ?r ! T = ?n - 1"
    using A[of "?n - 1"] an r by auto
  have rl: "T < length (?sl ! ?r)"
    using wf T rn by (simp add: wf_Model_iff)
  have before: "Model_access T e' m = Some (?d ! ?b)"
    using e' TT bn l
    by (simp add: Model_access_def getAccess_def AccessMatrix_get_def getComponent_def
        Component_access_def)
  have cell: "am_data (accessMatrix ?m1) ! e' ! T = (if e' = ?r then ?a else ?b)"
    using e rn rl ne
    by (simp add: remove_core_def Let_def slots_after_remove_cell)
  have dat: "c_data (components ?m1 ! T) = take (?n - 1) (?d[?a := last ?d])"
    using TT l by (simp add: remove_core_def Let_def)
  have after: "Model_access T e' ?m1 = Some (?d ! ?b)"
  proof (cases "e' = ?r")
    case True
    then have bl: "?b = ?n - 1" using rT by simp
    then have "?a < ?n - 1" using ab an by auto
    then show ?thesis
      using True e' TT cell dat l ld bl an
      by (simp add: Model_access_def getAccess_def AccessMatrix_get_def getComponent_def
          Component_access_def)
  next
    case False
    then have "?b \<noteq> ?n - 1" using ob r by auto
    then have "?b < ?n - 1" using bn by auto
    then show ?thesis
      using False e' TT cell dat l ab
      by (simp add: Model_access_def getAccess_def AccessMatrix_get_def getComponent_def
          Component_access_def)
  qed
  show ?thesis
    using Model_remove_defined[OF wf T ok own] before after by simp
qed

theorem Model_remove_keeps_others_witness:
  "Model_access 0 1 ex1 = Some 11 \<and>
   (\<exists>m'. Model_remove 0 0 ex1 = Some m' \<and> Model_access 0 1 m' = Some 11)"
proof -
  have h1: "wf_Model 2 ex1" by (simp add: ev_ex1)
  have h2: "(0::nat) < 2" by simp
  have h3: "consistent 0 ex1" by (simp add: ev_ex1)
  have h4: "hasAccess 0 0 ex1 = Some True" by (simp add: ev_ex1)
  have h5: "hasAccess 0 1 ex1 = Some True" by (simp add: ev_ex1)
  have h6: "(1::nat) \<noteq> 0" by simp
  have v: "Model_access 0 1 ex1 = Some 11" by (simp add: ev_ex1)
  show ?thesis
    using Model_remove_keeps_others[OF h1 h2 h3 h4 h5 h6] v by auto
qed

section \<open>Model: signatures\<close>

text \<open>
  Claim C7. For a spawned entity \<open>e\<close> of a well-formed Model with signature \<open>s\<close> and a
  declared type \<open>T\<close>: when the store of \<open>T\<close> holds fewer than \<^verbatim>\<open>SIZE_MAX\<close> elements,
  \<^verbatim>\<open>insert<T>(e, v)\<close> returns and leaves \<open>e\<close> with the signature \<open>s\<close> plus bit \<open>T\<close>; when the
  store of \<open>T\<close> agrees with the cells and \<open>e\<close> owns \<open>T\<close>, \<^verbatim>\<open>remove<T>(e)\<close> returns and leaves \<open>e\<close>
  with the signature \<open>s\<close> minus bit \<open>T\<close>. No other bit changes.
\<close>

theorem signature_insert_remove:
  assumes wf: "wf_Model M m" and sp: "e \<in> set (spawnedEntities m)" and T: "T < M"
  shows "\<exists>s. computeSignature_entity M e m = Some s \<and>
     (length (c_data (components m ! T)) < maxAccessor \<longrightarrow>
        (\<exists>m'. Model_insert M T e v m = Some m' \<and>
              computeSignature_entity M e m' = Some (insert T s))) \<and>
     (consistent T m \<and> T \<in> s \<longrightarrow>
        (\<exists>m'. Model_remove T e m = Some m' \<and>
              computeSignature_entity M e m' = Some (s - {T})))"
proof -
  let ?sl = "am_data (accessMatrix m)"
  let ?s = "{T'. T' < M \<and> ?sl ! e ! T' \<noteq> maxAccessor}"
  have e: "e < length ?sl"
    using wf sp by (simp add: wf_Model_iff)
  have l: "length (?sl ! e) = M"
    using wf e by (simp add: wf_Model_iff)
  have s: "computeSignature_entity M e m = Some ?s"
    using e l by (rule computeSignature_entity_eq)
  have ins: "\<exists>m'. Model_insert M T e v m = Some m' \<and>
              computeSignature_entity M e m' = Some (insert T ?s)"
    if "length (c_data (components m ! T)) < maxAccessor"
  proof -
    let ?m1 = "insert_core T e v m"
    have c: "{T'. T' < M \<and> am_data (accessMatrix ?m1) ! e ! T' \<noteq> maxAccessor} = insert T ?s"
      using e l T that by (auto simp: insert_core_cell)
    have "computeSignature_entity M e ?m1 =
        Some {T'. T' < M \<and> am_data (accessMatrix ?m1) ! e ! T' \<noteq> maxAccessor}"
      using e l by (intro computeSignature_entity_eq) (simp_all add: insert_core_def Let_def)
    then have "computeSignature_entity M e ?m1 = Some (insert T ?s)"
      by (simp only: c)
    then show ?thesis
      by (simp add: Model_insert_eq[OF wf e T, of v] c)
  qed
  have rem: "\<exists>m'. Model_remove T e m = Some m' \<and>
              computeSignature_entity M e m' = Some (?s - {T})"
    if ok: "consistent T m" and own: "T \<in> ?s"
  proof -
    let ?m1 = "remove_core T e m"
    have h: "hasAccess T e m = Some True"
      using own e l by (simp add: hasAccess_eq)
    have c1: "am_data (accessMatrix ?m1) ! e ! T = maxAccessor"
      using e l T by (simp add: remove_core_def Let_def slots_after_remove_self)
    have c2: "am_data (accessMatrix ?m1) ! e ! T' = ?sl ! e ! T'" if "T' \<noteq> T" for T'
      using that by (simp add: remove_core_other)
    have c: "{T'. T' < M \<and> am_data (accessMatrix ?m1) ! e ! T' \<noteq> maxAccessor} = ?s - {T}"
    proof (rule set_eqI)
      fix T'
      show "T' \<in> {T'. T' < M \<and> am_data (accessMatrix ?m1) ! e ! T' \<noteq> maxAccessor} \<longleftrightarrow>
            T' \<in> ?s - {T}"
        using c1 c2[of T'] by (cases "T' = T") simp_all
    qed
    have "computeSignature_entity M e ?m1 =
        Some {T'. T' < M \<and> am_data (accessMatrix ?m1) ! e ! T' \<noteq> maxAccessor}"
      using e l by (intro computeSignature_entity_eq) simp_all
    then have "computeSignature_entity M e ?m1 = Some (?s - {T})"
      by (simp only: c)
    then show ?thesis
      by (simp add: Model_remove_defined[OF wf T ok h])
  qed
  show ?thesis
    using s ins rem by blast
qed

theorem signature_insert_remove_witness:
  "computeSignature_entity 2 0 ex1 = Some {0} \<and>
   (\<exists>m'. Model_insert 2 1 0 42 ex1 = Some m' \<and> computeSignature_entity 2 0 m' = Some {0, 1}) \<and>
   (\<exists>m'. Model_remove 0 0 ex1 = Some m' \<and> computeSignature_entity 2 0 m' = Some {})"
proof -
  have h1: "wf_Model 2 ex1" by (simp add: ev_ex1)
  have h2: "0 \<in> set (spawnedEntities ex1)" by (simp add: ev_ex1)
  have h3: "(1::nat) < 2" and h3': "(0::nat) < 2" by simp_all
  have s: "computeSignature_entity 2 0 ex1 = Some {0}" by (simp add: ev_ex1)
  have i: "length (c_data (components ex1 ! 1)) < maxAccessor"
    by (simp add: ex1_def maxAccessor_def)
  have r: "consistent 0 ex1" by (simp add: ev_ex1)
  have "\<exists>m'. Model_insert 2 1 0 42 ex1 = Some m' \<and>
      computeSignature_entity 2 0 m' = Some (insert 1 {0})"
    using signature_insert_remove[OF h1 h2 h3, of 42] s i by auto
  moreover have "\<exists>m'. Model_remove 0 0 ex1 = Some m' \<and>
      computeSignature_entity 2 0 m' = Some ({0} - {0})"
    using signature_insert_remove[OF h1 h2 h3', of 42] s r by auto
  ultimately show ?thesis
    using s by (simp add: insert_commute)
qed

section \<open>Model: creating a system\<close>

text \<open>
  Claim C6. In a well-formed Model, \<^verbatim>\<open>createSystem<Us...>(f)\<close> returns the handle of a system
  that is registered under it, whose signature is the set of the types \<open>Us\<close> and whose
  working set holds exactly the spawned entities whose signature is a superset of that
  signature.
\<close>

theorem createSystem_seeds:
  assumes wf: "wf_Model M m"
  shows "\<exists>m' sys. createSystem M Us hSys m = Some (hSys, m') \<and>
     map_of (systems m') hSys = Some sys \<and>
     signature sys = set Us \<and>
     set (entities sys) = set (matching M (signature sys) m')"
proof -
  let ?tmp = "\<lparr>signature = computeSignature_types Us, entities = []\<rparr>"
  obtain sys where 1: "seedSystem M (spawnedEntities m) m ?tmp = Some sys"
    and 2: "signature sys = signature ?tmp"
    and 3: "set (entities sys) = set (entities ?tmp) \<union>
       {e \<in> set (spawnedEntities m). signature ?tmp \<subseteq> {T. T < M \<and> am_data (accessMatrix m) ! e ! T \<noteq> maxAccessor}}"
    using seedSystem_eq[of m M "spawnedEntities m" ?tmp] wf by (auto simp: wf_Model_iff)
  let ?m' = "m\<lparr>systems := AList.update hSys sys (systems m)\<rparr>"
  have wf': "wf_Model M ?m'"
    using wf by (simp add: wf_Model_def)
  have "createSystem M Us hSys m = Some (hSys, ?m')"
    using 1 by (simp add: createSystem_def)
  moreover have "map_of (systems ?m') hSys = Some sys"
    by (simp add: update_conv')
  moreover have "signature sys = set Us"
    using 2 by (simp add: computeSignature_types_eq)
  moreover have "set (entities sys) = set (matching M (signature sys) ?m')"
    unfolding set_matching[OF wf'] using 2 3 by simp
  ultimately show ?thesis by blast
qed

theorem createSystem_seeds_witness:
  "createSystem 2 [1] 200 ex1 =
     Some (200, ex1\<lparr>systems := systems ex1 @ [(200, \<lparr>signature = {1}, entities = [1]\<rparr>)]\<rparr>) \<and>
   (\<exists>m' sys. createSystem 2 [1] 200 ex1 = Some (200, m') \<and>
      map_of (systems m') 200 = Some sys \<and> signature sys = set [1] \<and>
      set (entities sys) = set (matching 2 (signature sys) m'))"
proof -
  have h1: "wf_Model 2 ex1" by (simp add: ev_ex1)
  have c: "createSystem 2 [1] 200 ex1 =
     Some (200, ex1\<lparr>systems := systems ex1 @ [(200, \<lparr>signature = {1}, entities = [1]\<rparr>)]\<rparr>)"
    by (simp add: ev_ex1)
  show ?thesis
    using c createSystem_seeds[OF h1, of "[1]" 200] by simp
qed

section \<open>Model: slot reuse\<close>

text \<open>
  Claim C8. In a well-formed Model whose stores agree with the cells, \<^verbatim>\<open>removeEntity(e)\<close> on
  a spawned entity returns, the \<^verbatim>\<open>createEntity()\<close> that follows returns, and the entity it
  returns has no component of any declared type. For the allocator alone: when every cell
  of the free list is all-absent and a block holds at least one cell, \<^verbatim>\<open>make()\<close> returns a
  cell whose accessors are all the absent sentinel.
\<close>

theorem slot_reuse_absent:
  assumes wf: "wf_Model M m" and ok: "\<forall>T<M. consistent T m"
    and sp: "e \<in> set (spawnedEntities m)"
    and fr: "free_slots_absent M am" and N: "0 < N"
  shows "(\<exists>m1 e' m2. removeEntity M e m = Some m1 \<and> createEntity N M m1 = Some (e', m2) \<and>
            (\<forall>T<M. hasAccess T e' m2 = Some False)) \<and>
         (\<exists>i am'. AccessMatrix_make N M am = Some (i, am') \<and>
            (\<forall>T<M. AccessMatrix_has i T am' = Some False))"
proof -
  have e: "e < length (am_data (accessMatrix m))"
    using wf sp by (simp add: wf_Model_iff)
  obtain m0 where 1: "checkedRemove_all [0..<M] e m = Some m0"
    and 2: "length (am_data (accessMatrix m0)) = length (am_data (accessMatrix m))"
    using checkedRemove_all_inv[OF wf ok e, of "[0..<M]"] by auto
  let ?am = "(accessMatrix m0)\<lparr>am_data := (am_data (accessMatrix m0))[e := defaultAccessors M],
                   available := available (accessMatrix m0) @ [e]\<rparr>"
  let ?m1 = "removeFromSystems e {}
      (m0\<lparr>accessMatrix := ?am, spawnedEntities := set_erase e (spawnedEntities m0)\<rparr>)"
  have re: "removeEntity M e m = Some ?m1"
    using 1 2 e by (simp add: removeEntity_def AccessMatrix_free_def)
  let ?am2 = "?am\<lparr>available := available (accessMatrix m0)\<rparr>"
  let ?m2 = "insertInSystems e {} (?m1\<lparr>accessMatrix := ?am2,
      spawnedEntities := set_insert e (spawnedEntities ?m1)\<rparr>)"
  have ce: "createEntity N M ?m1 = Some (e, ?m2)"
    by (simp add: createEntity_def AccessMatrix_make_def Let_def)
  have "hasAccess T e ?m2 = Some False" if "T < M" for T
    using that e 2
    by (simp add: hasAccess_def AccessMatrix_has_def AccessMatrix_get_def defaultAccessors_def)
  then have first: "\<exists>m1 e' m2. removeEntity M e m = Some m1 \<and>
      createEntity N M m1 = Some (e', m2) \<and> (\<forall>T<M. hasAccess T e' m2 = Some False)"
    using re ce by blast
  show ?thesis
    using first AccessMatrix_make_absent[OF fr N] by blast
qed

theorem slot_reuse_absent_witness:
  "(\<exists>m1 e' m2. removeEntity 2 1 ex1 = Some m1 \<and> createEntity 2 2 m1 = Some (e', m2) \<and>
      hasAccess 0 e' m2 = Some False \<and> hasAccess 1 e' m2 = Some False) \<and>
   (\<exists>i am'. AccessMatrix_make 2 2
        \<lparr>am_data = [[0, maxAccessor], [maxAccessor, maxAccessor]], available = [1]\<rparr> =
        Some (i, am') \<and>
      AccessMatrix_has i 0 am' = Some False \<and> AccessMatrix_has i 1 am' = Some False)"
proof -
  have h1: "wf_Model 2 ex1" by (simp add: ev_ex1)
  have "consistent 0 ex1" and "consistent 1 ex1"
    by (simp_all add: ev_ex1)
  then have h2: "\<forall>T<2. consistent T ex1"
    by (auto simp: less_2_cases_iff)
  have h3: "1 \<in> set (spawnedEntities ex1)" by (simp add: ev_ex1)
  have h4: "free_slots_absent 2
      \<lparr>am_data = [[0, maxAccessor], [maxAccessor, maxAccessor]], available = [1]\<rparr>"
    by (simp add: free_slots_absent_def defaultAccessors_def replicate_2)
  have h5: "(0::nat) < 2" by simp
  have t: "(0::nat) < 2 \<and> (1::nat) < 2" by simp
  show ?thesis
    using slot_reuse_absent[OF h1 h2 h3 h4 h5] t by blast
qed

section \<open>Model: membership of the systems after a removal\<close>

lemmas ev_ex2 = eval_defs upt_0_2 replicate_2 below_maxAccessor ex2_def

text \<open>
  Claim C2, evaluated. \<open>ex2\<close> is reached by the calls below; entity 0 owns both types.
  \<^verbatim>\<open>remove<T0>(0)\<close> clears the accessor, but system 100, which requires types 0 and 1, still
  holds entity 0, and system 200, which requires no type, has lost it:
  \<^verbatim>\<open>removeFromSystems_\<close> is called with the signature \<open>{T}\<close> and edits the systems whose
  signature is a subset of \<open>{T}\<close>.
\<close>

theorem Model_remove_systems_evaluated:
  "run 2 2 [OpCreateSystem [0, 1] 100, OpCreateSystem [] 200, OpCreateEntity, OpInsert 0 0 7,
      OpInsert 1 0 8] (Model_new 2) = Some ex2 \<and>
   hasAccess 0 0 ex2 = Some True \<and>
   computeSignature_entity 2 0 ex2 = Some {0, 1} \<and>
   Model_remove 0 0 ex2 =
     Some \<lparr>accessMatrix =
             \<lparr>am_data = [[maxAccessor, 0], [maxAccessor, maxAccessor]], available = [1]\<rparr>,
           spawnedEntities = [0],
           components = [\<lparr>c_data = [], owners = []\<rparr>, \<lparr>c_data = [8], owners = [0]\<rparr>],
           systems = [(100, \<lparr>signature = {0, 1}, entities = [0]\<rparr>),
                      (200, \<lparr>signature = {}, entities = []\<rparr>)]\<rparr>"
  by (simp add: ev_ex2 insert_commute)

text \<open>
  Claim C1, evaluated. From a default-constructed Model with two component types:
  a system requiring both types is created, an entity is created and given both
  components. After \<^verbatim>\<open>remove<T0>\<close> the entity's signature is \<open>{1}\<close> and it is still in the
  system's working set; after \<^verbatim>\<open>removeEntity\<close> instead, the entity is not spawned any more
  and is still in the working set. In both final states the working set differs from the
  set of the matching entities.
\<close>

theorem systems_synced_evaluated:
  "run 2 2 [OpCreateSystem [0, 1] 100, OpCreateEntity, OpInsert 0 0 7, OpInsert 1 0 8]
     (Model_new 2) =
     Some \<lparr>accessMatrix =
             \<lparr>am_data = [[0, 0], [maxAccessor, maxAccessor]], available = [1]\<rparr>,
           spawnedEntities = [0],
           components = [\<lparr>c_data = [7::nat], owners = [0]\<rparr>, \<lparr>c_data = [8], owners = [0]\<rparr>],
           systems = [(100, \<lparr>signature = {0, 1}, entities = [0]\<rparr>)]\<rparr> \<and>
   run 2 2 [OpCreateSystem [0, 1] 100, OpCreateEntity, OpInsert 0 0 7, OpInsert 1 0 8,
      OpRemove 0 0] (Model_new 2) =
     Some \<lparr>accessMatrix =
             \<lparr>am_data = [[maxAccessor, 0], [maxAccessor, maxAccessor]], available = [1]\<rparr>,
           spawnedEntities = [0],
           components = [\<lparr>c_data = [], owners = []\<rparr>, \<lparr>c_data = [8::nat], owners = [0]\<rparr>],
           systems = [(100, \<lparr>signature = {0, 1}, entities = [0]\<rparr>)]\<rparr> \<and>
   \<not> systems_synced 2
     \<lparr>accessMatrix =
        \<lparr>am_data = [[maxAccessor, 0], [maxAccessor, maxAccessor]], available = [1]\<rparr>,
      spawnedEntities = [0],
      components = [\<lparr>c_data = [], owners = []\<rparr>, \<lparr>c_data = [8::nat], owners = [0]\<rparr>],
      systems = [(100, \<lparr>signature = {0, 1}, entities = [0]\<rparr>)]\<rparr> \<and>
   run 2 2 [OpCreateSystem [0, 1] 100, OpCreateEntity, OpInsert 0 0 7, OpInsert 1 0 8,
      OpRemoveEntity 0] (Model_new 2) =
     Some \<lparr>accessMatrix =
             \<lparr>am_data = [[maxAccessor, maxAccessor], [maxAccessor, maxAccessor]],
                available = [1, 0]\<rparr>,
           spawnedEntities = [],
           components = [\<lparr>c_data = [], owners = []\<rparr>, \<lparr>c_data = ([]::nat list), owners = []\<rparr>],
           systems = [(100, \<lparr>signature = {0, 1}, entities = [0]\<rparr>)]\<rparr> \<and>
   \<not> systems_synced 2
     \<lparr>accessMatrix =
        \<lparr>am_data = [[maxAccessor, maxAccessor], [maxAccessor, maxAccessor]],
           available = [1, 0]\<rparr>,
      spawnedEntities = [],
      components = [\<lparr>c_data = [], owners = []\<rparr>, \<lparr>c_data = ([]::nat list), owners = []\<rparr>],
      systems = [(100, \<lparr>signature = {0, 1}, entities = [0]\<rparr>)]\<rparr>"
  by (simp add: eval_defs upt_0_2 replicate_2 below_maxAccessor insert_commute)

end
